theory Spec2Isabelle
  imports Complex_Main "HOL-Library.Multiset"
begin

section \<open>Student record management system: files and streams\<close>

text \<open>
  The program keeps all of its state in five flat files, named by the macros of
  \<^verbatim>\<open>srms.c\<close>. The file system is modelled by the content of each of the five
  files (\<open>None\<close>: the file does not exist) together with two permission tables that
  say whether \<^verbatim>\<open>fopen\<close> succeeds for reading and for writing: every
  \<^verbatim>\<open>fopen\<close> of the source is followed by a test for \<^verbatim>\<open>NULL\<close>, and these
  branches are branches of the model.
\<close>

datatype fname = STUDENT_FILE | CREDENTIAL_FILE | BACKUP_FILE | REPORT_FILE | CSV_FILE

record filesys =
  data :: "fname \<Rightarrow> string option"
  may_read :: "fname \<Rightarrow> bool"
  may_write :: "fname \<Rightarrow> bool"

text \<open>\<^verbatim>\<open>fopen(name, "r")\<close>: the content of an existing, readable file.\<close>

definition fopen_r :: "filesys \<Rightarrow> fname \<Rightarrow> string option" where
  "fopen_r fs f = (if may_read fs f then data fs f else None)"

text \<open>\<^verbatim>\<open>fopen(name, "w")\<close>: creates the file or truncates it to length zero at once.\<close>

definition fopen_w :: "filesys \<Rightarrow> fname \<Rightarrow> filesys option" where
  "fopen_w fs f = (if may_write fs f then Some (fs\<lparr>data := (data fs)(f \<mapsto> [])\<rparr>) else None)"

text \<open>\<^verbatim>\<open>fopen(name, "a")\<close>: creates the file when absent, keeps its content otherwise.\<close>

definition fopen_a :: "filesys \<Rightarrow> fname \<Rightarrow> filesys option" where
  "fopen_a fs f =
     (if may_write fs f
      then Some (fs\<lparr>data := (data fs)(f \<mapsto> (case data fs f of None \<Rightarrow> [] | Some c \<Rightarrow> c))\<rparr>)
      else None)"

text \<open>Output to a stream opened for writing or appending lands at the end of the file.\<close>

definition fputs :: "string \<Rightarrow> fname \<Rightarrow> filesys \<Rightarrow> filesys" where
  "fputs s f fs =
     fs\<lparr>data := (data fs)(f \<mapsto> (case data fs f of None \<Rightarrow> [] | Some c \<Rightarrow> c) @ s)\<rparr>"

subsection \<open>Streams opened for update, and \<^verbatim>\<open>xor_file\<close>\<close>

text \<open>
  A stream opened with \<^verbatim>\<open>"rb+"\<close> is the byte content with a file position.
  \<^verbatim>\<open>fread\<close> returns at most the requested number of bytes from the position on and
  advances it; \<^verbatim>\<open>fwrite\<close> overwrites from the position on (extending the file,
  with zero bytes in a gap, when the position lies beyond the end).
\<close>

record FILE =
  bytes :: string
  offset :: nat

definition fopen_rbplus :: "filesys \<Rightarrow> fname \<Rightarrow> FILE option" where
  "fopen_rbplus fs f =
     (if may_read fs f \<and> may_write fs f
      then (case data fs f of None \<Rightarrow> None | Some c \<Rightarrow> Some \<lparr>bytes = c, offset = 0\<rparr>)
      else None)"

definition fread :: "nat \<Rightarrow> FILE \<Rightarrow> string \<times> FILE" where
  "fread n f =
     (let buf = take n (drop (offset f) (bytes f))
      in (buf, f\<lparr>offset := offset f + length buf\<rparr>))"

definition fseek :: "FILE \<Rightarrow> nat \<Rightarrow> FILE" where
  "fseek f pos = f\<lparr>offset := pos\<rparr>"

definition ftell :: "FILE \<Rightarrow> nat" where
  "ftell f = offset f"

definition fwrite :: "string \<Rightarrow> FILE \<Rightarrow> FILE" where
  "fwrite buf f =
     f\<lparr>bytes := take (offset f) (bytes f) @ replicate (offset f - length (bytes f)) (CHR 0x00)
                 @ buf @ drop (offset f + length buf) (bytes f),
       offset := offset f + length buf\<rparr>"

text \<open>The exclusive or of two bytes, bit by bit (\<^verbatim>\<open>buf[i] ^= (unsigned char)key\<close>).\<close>

definition xor_char :: "char \<Rightarrow> char \<Rightarrow> char" where
  "xor_char a b =
     Char (digit0 a \<noteq> digit0 b) (digit1 a \<noteq> digit1 b) (digit2 a \<noteq> digit2 b)
          (digit3 a \<noteq> digit3 b) (digit4 a \<noteq> digit4 b) (digit5 a \<noteq> digit5 b)
          (digit6 a \<noteq> digit6 b) (digit7 a \<noteq> digit7 b)"

text \<open>
  The loop of \<^verbatim>\<open>xor_file\<close>, with the stream and the local \<^verbatim>\<open>pos\<close> as its state:
  read a chunk of at most 4096 bytes, mask it, seek back to \<^verbatim>\<open>pos\<close>, write the
  chunk, take the new position from \<^verbatim>\<open>ftell\<close> and seek there.
\<close>

function xor_loop :: "char \<Rightarrow> FILE \<Rightarrow> nat \<Rightarrow> FILE" where
  "xor_loop key f pos =
     (if length (fst (fread 4096 f)) > 0
      then
        (let buf = map (\<lambda>c. xor_char c key) (fst (fread 4096 f));
             f1 = fseek (snd (fread 4096 f)) pos;
             f2 = fwrite buf f1;
             pos' = ftell f2
         in xor_loop key (fseek f2 pos') pos')
      else snd (fread 4096 f))"
  by pat_completeness auto
termination
  by (relation "measures [\<lambda>(key, f, pos). if offset f = pos then 0 else 1,
                          \<lambda>(key, f, pos). length (bytes f) - offset f]")
     (auto simp: fread_def fseek_def fwrite_def ftell_def Let_def)

declare xor_loop.simps [simp del]

definition xor_file :: "fname \<Rightarrow> char \<Rightarrow> filesys \<Rightarrow> filesys" where
  "xor_file filename key fs =
     (case fopen_rbplus fs filename of
        None \<Rightarrow> fs
      | Some f \<Rightarrow> fs\<lparr>data := (data fs)(filename \<mapsto> bytes (xor_loop key f 0))\<rparr>)"

section \<open>The credential store\<close>

text \<open>
  The credential file is read with \<^verbatim>\<open>fscanf(fp, "%127s %127s %63s", u, p, r)\<close>. A
  directive \<^verbatim>\<open>%Ns\<close> skips white space, then takes characters up to the next white
  space, at most N of them, and fails at the end of the file. The arrays are then read
  as C strings by \<^verbatim>\<open>strcmp\<close> and \<^verbatim>\<open>%s\<close>, which stop at the first zero byte.
\<close>

definition isspace :: "char \<Rightarrow> bool" where
  "isspace c \<longleftrightarrow> c \<in> {CHR '' '', CHR 0x09, CHR 0x0A, CHR 0x0B, CHR 0x0C, CHR 0x0D}"

definition c_str :: "string \<Rightarrow> string" where
  "c_str s = takeWhile (\<lambda>c. c \<noteq> CHR 0x00) s"

definition scan_s :: "nat \<Rightarrow> string \<Rightarrow> (string \<times> string) option" where
  "scan_s w s =
     (let s' = dropWhile isspace s;
          tok = take w (takeWhile (\<lambda>c. \<not> isspace c) s')
      in if s' = [] then None else Some (c_str tok, drop (length tok) s'))"

text \<open>One call of \<^verbatim>\<open>fscanf\<close> with the three directives: the row and the rest of
  the stream when it returns 3, \<open>None\<close> otherwise.\<close>

definition fscanf3 :: "string \<Rightarrow> ((string \<times> string \<times> string) \<times> string) option" where
  "fscanf3 s =
     (case scan_s 127 s of
        None \<Rightarrow> None
      | Some (u, s1) \<Rightarrow>
          (case scan_s 127 s1 of
             None \<Rightarrow> None
           | Some (p, s2) \<Rightarrow>
               (case scan_s 63 s2 of
                  None \<Rightarrow> None
                | Some (r, s3) \<Rightarrow> Some ((u, p, r), s3))))"

lemma scan_s_shorter: "scan_s w s = Some (t, s') \<Longrightarrow> length s' \<le> length s"
proof -
  assume "scan_s w s = Some (t, s')"
  then have "length s' \<le> length (dropWhile isspace s)"
    by (auto simp: scan_s_def Let_def split: if_splits)
  also have "\<dots> \<le> length s"
    by (rule length_dropWhile_le)
  finally show ?thesis .
qed

lemma scan_s_shorter_strict:
  "0 < w \<Longrightarrow> scan_s w s = Some (t, s') \<Longrightarrow> length s' < length s"
proof -
  assume w: "0 < w" and s: "scan_s w s = Some (t, s')"
  define d where "d = dropWhile isspace s"
  from s have d: "d \<noteq> []" and s': "s' = drop (length (take w (takeWhile (\<lambda>c. \<not> isspace c) d))) d"
    by (auto simp: scan_s_def Let_def d_def split: if_splits)
  from d have "\<not> isspace (hd d)"
    unfolding d_def by (rule hd_dropWhile)
  with d have "takeWhile (\<lambda>c. \<not> isspace c) d \<noteq> []"
    by (cases d) auto
  with w have "0 < length (take w (takeWhile (\<lambda>c. \<not> isspace c) d))"
    by (cases "takeWhile (\<lambda>c. \<not> isspace c) d") auto
  with d s' have "length s' < length d"
    by simp
  also have "length d \<le> length s"
    unfolding d_def by (rule length_dropWhile_le)
  finally show ?thesis .
qed

lemma fscanf3_shorter: "fscanf3 s = Some (row, s') \<Longrightarrow> length s' < length s"
proof -
  assume "fscanf3 s = Some (row, s')"
  then obtain u s1 p s2 r where
    1: "scan_s 127 s = Some (u, s1)" and 2: "scan_s 127 s1 = Some (p, s2)"
    and 3: "scan_s 63 s2 = Some (r, s')"
    by (auto simp: fscanf3_def split: option.splits prod.splits)
  have "length s' \<le> length s2" using 3 by (rule scan_s_shorter)
  also have "\<dots> \<le> length s1" using 2 by (rule scan_s_shorter)
  also have "\<dots> < length s" using 1 by (auto dest: scan_s_shorter_strict [rotated])
  finally show ?thesis .
qed

text \<open>The rows of a credential file, as the reading loops of the program see them.\<close>

function cred_rows :: "string \<Rightarrow> (string \<times> string \<times> string) list" where
  "cred_rows s = (case fscanf3 s of None \<Rightarrow> [] | Some (row, s') \<Rightarrow> row # cred_rows s')"
  by pat_completeness auto
termination
  by (relation "measure length") (auto dest: fscanf3_shorter)

declare cred_rows.simps [simp del]

text \<open>\<^verbatim>\<open>snprintf(buf, n, ...)\<close> stores at most \<open>n - 1\<close> characters of the text.\<close>

definition snprintf :: "nat \<Rightarrow> string \<Rightarrow> string" where
  "snprintf n s = take (n - 1) s"

definition row_line :: "string \<Rightarrow> string \<Rightarrow> string \<Rightarrow> string" where
  "row_line u p r = u @ '' '' @ p @ '' '' @ r @ [CHR 0x0A]"

text \<open>
  \<^verbatim>\<open>check_credentials\<close>: the role (cut to \<^verbatim>\<open>MAX_ROLE - 1\<close> characters by
  \<^verbatim>\<open>strncpy\<close>) of the first row with this user name and password.
\<close>

function check_loop :: "string \<Rightarrow> string \<Rightarrow> string \<Rightarrow> string option" where
  "check_loop username password s =
     (case fscanf3 s of
        None \<Rightarrow> None
      | Some ((user, pass, role), s') \<Rightarrow>
          if user = username \<and> pass = password then Some (take 15 role)
          else check_loop username password s')"
  by pat_completeness auto
termination
  by (relation "measure (\<lambda>(u, p, s). length s)") (auto dest: fscanf3_shorter)

declare check_loop.simps [simp del]

definition check_credentials :: "string \<Rightarrow> string \<Rightarrow> filesys \<Rightarrow> string option" where
  "check_credentials username password fs =
     (case fopen_r fs CREDENTIAL_FILE of
        None \<Rightarrow> None
      | Some c \<Rightarrow> check_loop username password c)"

definition add_credential :: "string \<Rightarrow> string \<Rightarrow> string \<Rightarrow> filesys \<Rightarrow> int \<times> filesys" where
  "add_credential user pass role fs =
     (case fopen_a fs CREDENTIAL_FILE of
        None \<Rightarrow> (0, fs)
      | Some fs' \<Rightarrow> (1, fputs (row_line user pass role) CREDENTIAL_FILE fs'))"

text \<open>
  \<^verbatim>\<open>reset_password\<close> and \<^verbatim>\<open>remove_credential\<close> collect the lines to write back in
  \<^verbatim>\<open>char lines[1024][256]\<close>. Storing a line at index 1024 is outside the array:
  the behaviour of the program is undefined there, which the model shows as \<open>None\<close>.
\<close>

function reset_loop ::
  "string \<Rightarrow> string \<Rightarrow> string \<Rightarrow> string list \<Rightarrow> bool \<Rightarrow> (string list \<times> bool) option" where
  "reset_loop user newpass s lines found =
     (case fscanf3 s of
        None \<Rightarrow> Some (lines, found)
      | Some ((u, p, r), s') \<Rightarrow>
          if length lines \<ge> 1024 then None
          else if u = user
          then reset_loop user newpass s' (lines @ [snprintf 256 (row_line u newpass r)]) True
          else reset_loop user newpass s' (lines @ [snprintf 256 (row_line u p r)]) found)"
  by pat_completeness auto
termination
  by (relation "measure (\<lambda>(u, p, s, l, f). length s)") (auto dest: fscanf3_shorter)

declare reset_loop.simps [simp del]

definition write_lines :: "string list \<Rightarrow> fname \<Rightarrow> filesys \<Rightarrow> filesys" where
  "write_lines lines f fs = foldl (\<lambda>fs l. fputs l f fs) fs lines"

definition reset_password :: "string \<Rightarrow> string \<Rightarrow> filesys \<Rightarrow> (int \<times> filesys) option" where
  "reset_password user newpass fs =
     (case fopen_r fs CREDENTIAL_FILE of
        None \<Rightarrow> Some (0, fs)
      | Some c \<Rightarrow>
          (case reset_loop user newpass c [] False of
             None \<Rightarrow> None
           | Some (lines, found) \<Rightarrow>
               if \<not> found then Some (0, fs)
               else (case fopen_w fs CREDENTIAL_FILE of
                       None \<Rightarrow> Some (0, fs)
                     | Some fs' \<Rightarrow> Some (1, write_lines lines CREDENTIAL_FILE fs'))))"

function remove_loop ::
  "string \<Rightarrow> string \<Rightarrow> string list \<Rightarrow> bool \<Rightarrow> (string list \<times> bool) option" where
  "remove_loop user s lines found =
     (case fscanf3 s of
        None \<Rightarrow> Some (lines, found)
      | Some ((u, p, r), s') \<Rightarrow>
          if u = user then remove_loop user s' lines True
          else if length lines \<ge> 1024 then None
          else remove_loop user s' (lines @ [snprintf 256 (row_line u p r)]) found)"
  by pat_completeness auto
termination
  by (relation "measure (\<lambda>(u, s, l, f). length s)") (auto dest: fscanf3_shorter)

declare remove_loop.simps [simp del]

definition remove_credential :: "string \<Rightarrow> filesys \<Rightarrow> (int \<times> filesys) option" where
  "remove_credential user fs =
     (case fopen_r fs CREDENTIAL_FILE of
        None \<Rightarrow> Some (0, fs)
      | Some c \<Rightarrow>
          (case remove_loop user c [] False of
             None \<Rightarrow> None
           | Some (lines, found) \<Rightarrow>
               if \<not> found then Some (0, fs)
               else (case fopen_w fs CREDENTIAL_FILE of
                       None \<Rightarrow> Some (0, fs)
                     | Some fs' \<Rightarrow> Some (1, write_lines lines CREDENTIAL_FILE fs'))))"

text \<open>\<^verbatim>\<open>ensure_default_credentials\<close>: five rows, written when the file cannot be read.\<close>

definition ensure_default_credentials :: "filesys \<Rightarrow> filesys" where
  "ensure_default_credentials fs =
     (case fopen_r fs CREDENTIAL_FILE of
        Some c \<Rightarrow> fs
      | None \<Rightarrow>
          (case fopen_w fs CREDENTIAL_FILE of
             None \<Rightarrow> fs
           | Some fs' \<Rightarrow>
               fputs (''student student STUDENT'' @ [CHR 0x0A]) CREDENTIAL_FILE
                (fputs (''principal principal PRINCIPAL'' @ [CHR 0x0A]) CREDENTIAL_FILE
                 (fputs (''guest guest GUEST'' @ [CHR 0x0A]) CREDENTIAL_FILE
                  (fputs (''staff staff STAFF'' @ [CHR 0x0A]) CREDENTIAL_FILE
                   (fputs (''admin admin ADMIN'' @ [CHR 0x0A]) CREDENTIAL_FILE fs'))))))"

text \<open>The line that \<^verbatim>\<open>reset_password\<close> stores for a row.\<close>

definition upd_row :: "string \<Rightarrow> string \<Rightarrow> string \<times> string \<times> string \<Rightarrow> string" where
  "upd_row user newpass row = (case row of (u, p, r) \<Rightarrow> snprintf 256 (row_line u (if u = user then newpass else p) r))"

text \<open>
  A token of the credential file as the program itself writes it: not empty, at most as
  long as the directive reads, without white space and without a zero byte. A row of
  three such tokens is read back as it was written.
\<close>

definition token :: "nat \<Rightarrow> string \<Rightarrow> bool" where
  "token w t \<longleftrightarrow> t \<noteq> [] \<and> length t \<le> w \<and> (\<forall>c\<in>set t. \<not> isspace c \<and> c \<noteq> CHR 0x00)"

definition clean_row :: "string \<times> string \<times> string \<Rightarrow> bool" where
  "clean_row row = (case row of (u, p, r) \<Rightarrow> token 127 u \<and> token 127 p \<and> token 63 r)"

text \<open>The text of a list of rows, one \<^verbatim>\<open>"%s %s %s\\n"\<close> line each.\<close>

definition rows_text :: "(string \<times> string \<times> string) list \<Rightarrow> string" where
  "rows_text rows = concat (map (\<lambda>(u, p, r). row_line u p r) rows)"

text \<open>Example file systems: every file may be opened; the five default rows; a row
  whose line is longer than the 255 characters that a line buffer holds.\<close>

definition all_open :: "(fname \<Rightarrow> string option) \<Rightarrow> filesys" where
  "all_open d = \<lparr>data = d, may_read = (\<lambda>_. True), may_write = (\<lambda>_. True)\<rparr>"

definition default_rows :: "(string \<times> string \<times> string) list" where
  "default_rows =
     [(''admin'', ''admin'', ''ADMIN''), (''staff'', ''staff'', ''STAFF''),
      (''guest'', ''guest'', ''GUEST''), (''principal'', ''principal'', ''PRINCIPAL''),
      (''student'', ''student'', ''STUDENT'')]"

definition long_rows :: "(string \<times> string \<times> string) list" where
  "long_rows =
     [(replicate 127 CHR ''a'', replicate 127 CHR ''b'', ''ADMIN''), (''bob'', ''pw'', ''GUEST'')]"

text \<open>
  The four operations of the credential store, and runs of them. A run is undefined
  (\<open>None\<close>) as soon as an operation writes outside the line array.
\<close>

datatype cred_op =
    Authenticate string string
  | Add string string string
  | ResetPassword string string
  | Remove string

fun cred_step :: "cred_op \<Rightarrow> filesys \<Rightarrow> filesys option" where
  "cred_step (Authenticate u p) fs = (case check_credentials u p fs of _ \<Rightarrow> Some fs)"
| "cred_step (Add u p r) fs = Some (snd (add_credential u p r fs))"
| "cred_step (ResetPassword u p) fs = map_option snd (reset_password u p fs)"
| "cred_step (Remove u) fs = map_option snd (remove_credential u fs)"

fun cred_run :: "cred_op list \<Rightarrow> filesys \<Rightarrow> filesys option" where
  "cred_run [] fs = Some fs"
| "cred_run (x # xs) fs = (case cred_step x fs of None \<Rightarrow> None | Some fs' \<Rightarrow> cred_run xs fs')"

definition rows_of :: "filesys \<Rightarrow> (string \<times> string \<times> string) list" where
  "rows_of fs = (case data fs CREDENTIAL_FILE of None \<Rightarrow> [] | Some c \<Rightarrow> cred_rows c)"

definition usernames :: "filesys \<Rightarrow> string list" where
  "usernames fs = map fst (rows_of fs)"

text \<open>
  An operation is admissible in a state when the strings it brings are tokens, the lines
  it makes fit a line buffer and, for \<open>Add\<close>, the user name has no row yet.
\<close>

fun admissible :: "cred_op \<Rightarrow> filesys \<Rightarrow> bool" where
  "admissible (Add u p r) fs \<longleftrightarrow>
     token 127 u \<and> token 127 p \<and> token 63 r \<and> length (row_line u p r) \<le> 255 \<and>
     u \<notin> set (usernames fs)"
| "admissible (ResetPassword u p) fs \<longleftrightarrow>
     token 127 p \<and> (\<forall>(u', p', r') \<in> set (rows_of fs). u' = u \<longrightarrow> length (row_line u' p r') \<le> 255)"
| "admissible (Authenticate u p) fs \<longleftrightarrow> True"
| "admissible (Remove u) fs \<longleftrightarrow> True"

fun admissible_run :: "cred_op list \<Rightarrow> filesys \<Rightarrow> bool" where
  "admissible_run [] fs \<longleftrightarrow> True"
| "admissible_run (x # xs) fs \<longleftrightarrow>
     admissible x fs \<and> (case cred_step x fs of None \<Rightarrow> True | Some fs' \<Rightarrow> admissible_run xs fs')"

definition fits :: "string \<times> string \<times> string \<Rightarrow> bool" where
  "fits row = (case row of (u, p, r) \<Rightarrow> length (row_line u p r) \<le> 255)"

text \<open>The invariant of admissible runs: the file is the text of at most \<open>n\<close> clean rows
  that fit the line buffer, with pairwise different user names.\<close>

definition cred_inv :: "nat \<Rightarrow> filesys \<Rightarrow> bool" where
  "cred_inv n fs \<longleftrightarrow>
     (\<exists>rows. data fs CREDENTIAL_FILE = Some (rows_text rows) \<and>
        (\<forall>row\<in>set rows. clean_row row \<and> fits row) \<and> distinct (map fst rows) \<and> length rows \<le> n)"

definition boot_fs :: filesys where
  "boot_fs = all_open ((\<lambda>_. None)(CREDENTIAL_FILE \<mapsto> rows_text default_rows))"

definition sample_ops :: "cred_op list" where
  "sample_ops = [Add ''carol'' ''pw'' ''STAFF'', ResetPassword ''guest'' ''new'', Remove ''staff'',
                 Authenticate ''admin'' ''admin'']"

section \<open>Numbers of type \<^verbatim>\<open>float\<close>\<close>

text \<open>
  A value of type \<^verbatim>\<open>float\<close> (IEEE 754 binary32) is a finite number, given by
  the rational number it stands for, the negative zero, an infinity or a NaN. An
  operation rounds its exact result to the format, to nearest with ties to even: to 24
  significant bits above \<open>2 powi - 126\<close>, to a multiple of \<open>2 powi - 149\<close> below
  (the subnormal numbers), and to an infinity from \<open>2 powi 128\<close> on. Each operation is
  evaluated in \<^verbatim>\<open>float\<close>, as the compilers for x86-64 and ARM do. A
  \<^verbatim>\<open>double\<close> has 53 bits and the exponents from - 1022 to 1023. The model does
  not tell the NaNs apart.
\<close>

datatype cfloat = Fin rat | NegZero | PInf | NInf | NaN

function bitlen :: "int \<Rightarrow> int" where
  "bitlen n = (if n \<le> 0 then 0 else 1 + bitlen (n div 2))"
  by pat_completeness auto

termination
  by (relation "measure nat") auto

declare bitlen.simps [simp del]

text \<open>The binary exponent of a number other than zero: \<open>2 powi expo x \<le> \<bar>x\<bar> < 2 powi (expo x + 1)\<close>.\<close>

definition expo :: "rat \<Rightarrow> int" where
  "expo x =
     (let (a, b) = quotient_of \<bar>x\<bar>;
          e = bitlen a - bitlen b
      in if 2 powi e \<le> \<bar>x\<bar> then e else e - 1)"

definition round_even :: "rat \<Rightarrow> int" where
  "round_even x =
     (let f = \<lfloor>x\<rfloor>; d = x - of_int f
      in if d < 1 / 2 then f else if 1 / 2 < d then f + 1 else if even f then f else f + 1)"

text \<open>Rounding to \<open>p\<close> significant bits, with the least exponent \<open>emin\<close>: below
  \<open>2 powi emin\<close> the spacing of the numbers stays that of the exponent \<open>emin\<close>.\<close>

definition round_fmt :: "nat \<Rightarrow> int \<Rightarrow> rat \<Rightarrow> rat" where
  "round_fmt p emin x =
     (if x = 0 then 0
      else let q = 2 powi (max (expo x) emin - int p + 1) in of_int (round_even (x / q)) * q)"

text \<open>The value of a format for an exact result: a rounded result whose binary exponent
  lies beyond \<open>emax\<close>, which is one of magnitude \<open>2 powi (emax + 1)\<close> or more, gives an
  infinity, and a negative result that rounds to zero gives the negative zero.\<close>

definition signed_inf :: "bool \<Rightarrow> cfloat" where
  "signed_inf neg = (if neg then NInf else PInf)"

definition to_format :: "nat \<Rightarrow> int \<Rightarrow> int \<Rightarrow> rat \<Rightarrow> cfloat" where
  "to_format p emin emax x =
     (let y = round_fmt p emin x
      in if y \<noteq> 0 \<and> emax < expo y then signed_inf (y < 0)
         else if y = 0 \<and> x < 0 then NegZero
         else Fin y)"

definition to_float :: "rat \<Rightarrow> cfloat" where
  "to_float x = to_format 24 (- 126) 127 x"

definition to_double :: "rat \<Rightarrow> cfloat" where
  "to_double x = to_format 53 (- 1022) 1023 x"

fun val :: "cfloat \<Rightarrow> rat" where
  "val (Fin x) = x"
| "val _ = 0"

fun is_neg :: "cfloat \<Rightarrow> bool" where
  "is_neg (Fin x) = (x < 0)"
| "is_neg NegZero = True"
| "is_neg NInf = True"
| "is_neg _ = False"

definition is_inf :: "cfloat \<Rightarrow> bool" where
  "is_inf a \<longleftrightarrow> a = PInf \<or> a = NInf"

definition is_zero :: "cfloat \<Rightarrow> bool" where
  "is_zero a \<longleftrightarrow> a = Fin 0 \<or> a = NegZero"

definition finite_float :: "cfloat \<Rightarrow> bool" where
  "finite_float a \<longleftrightarrow> a \<noteq> PInf \<and> a \<noteq> NInf \<and> a \<noteq> NaN"

definition signed_zero :: "bool \<Rightarrow> cfloat" where
  "signed_zero neg = (if neg then NegZero else Fin 0)"

fun fneg :: "cfloat \<Rightarrow> cfloat" where
  "fneg (Fin x) = (if x = 0 then NegZero else Fin (- x))"
| "fneg NegZero = Fin 0"
| "fneg PInf = NInf"
| "fneg NInf = PInf"
| "fneg NaN = NaN"

definition fadd :: "cfloat \<Rightarrow> cfloat \<Rightarrow> cfloat" where
  "fadd a b =
     (if a = NaN \<or> b = NaN then NaN
      else if is_inf a then (if is_inf b \<and> a \<noteq> b then NaN else a)
      else if is_inf b then b
      else let r = val a + val b
           in if r = 0 then signed_zero (a = NegZero \<and> b = NegZero) else to_float r)"

definition fsub :: "cfloat \<Rightarrow> cfloat \<Rightarrow> cfloat" where
  "fsub a b = fadd a (fneg b)"

definition fmul :: "cfloat \<Rightarrow> cfloat \<Rightarrow> cfloat" where
  "fmul a b =
     (if a = NaN \<or> b = NaN then NaN
      else if is_inf a \<or> is_inf b
      then (if is_zero a \<or> is_zero b then NaN else signed_inf (is_neg a \<noteq> is_neg b))
      else let r = val a * val b
           in if r = 0 then signed_zero (is_neg a \<noteq> is_neg b) else to_float r)"

definition fdiv :: "cfloat \<Rightarrow> cfloat \<Rightarrow> cfloat" where
  "fdiv a b =
     (if a = NaN \<or> b = NaN then NaN
      else if is_inf a then (if is_inf b then NaN else signed_inf (is_neg a \<noteq> is_neg b))
      else if is_inf b then signed_zero (is_neg a \<noteq> is_neg b)
      else if is_zero b then (if is_zero a then NaN else signed_inf (is_neg a \<noteq> is_neg b))
      else let r = val a / val b
           in if r = 0 then signed_zero (is_neg a \<noteq> is_neg b) else to_float r)"

text \<open>The comparisons of C: every comparison with a NaN is false, the two zeros are
  equal, and the infinities lie beyond all finite numbers.\<close>

fun rank :: "cfloat \<Rightarrow> int" where
  "rank NInf = - 1"
| "rank PInf = 1"
| "rank _ = 0"

definition flt :: "cfloat \<Rightarrow> cfloat \<Rightarrow> bool" where
  "flt a b \<longleftrightarrow> a \<noteq> NaN \<and> b \<noteq> NaN \<and> (rank a < rank b \<or> rank a = rank b \<and> val a < val b)"

definition fle :: "cfloat \<Rightarrow> cfloat \<Rightarrow> bool" where
  "fle a b \<longleftrightarrow> a \<noteq> NaN \<and> b \<noteq> NaN \<and> (rank a < rank b \<or> rank a = rank b \<and> val a \<le> val b)"

definition fgt :: "cfloat \<Rightarrow> cfloat \<Rightarrow> bool" where
  "fgt a b \<longleftrightarrow> flt b a"

definition fge :: "cfloat \<Rightarrow> cfloat \<Rightarrow> bool" where
  "fge a b \<longleftrightarrow> fle b a"

text \<open>The conversions of an \<^verbatim>\<open>int\<close> to \<^verbatim>\<open>float\<close> and of a
  \<^verbatim>\<open>double\<close> to \<^verbatim>\<open>float\<close>.\<close>

definition float_of_int :: "int \<Rightarrow> cfloat" where
  "float_of_int n = to_float (of_int n)"

fun float_of_double :: "cfloat \<Rightarrow> cfloat" where
  "float_of_double (Fin x) = to_float x"
| "float_of_double d = d"

section \<open>Students and their derived fields\<close>

definition SUBJECTS :: nat where
  "SUBJECTS = 3"

definition MAX_NAME :: nat where
  "MAX_NAME = 100"

record Student =
  roll :: int
  name :: string
  marks :: "cfloat list"
  total :: cfloat
  percentage :: cfloat
  grade :: string

text \<open>
  \<^verbatim>\<open>calculate_student\<close>: the total is accumulated in the order of the subjects,
  starting from \<^verbatim>\<open>0.0f\<close>; the percentage is
  \<^verbatim>\<open>(total / (100.0f * SUBJECTS)) * 100.0f\<close>; the grade is the first threshold
  that the percentage reaches.
\<close>

definition calculate_student :: "Student \<Rightarrow> Student" where
  "calculate_student s =
     (let t = foldl (\<lambda>t i. fadd t (marks s ! i)) (Fin 0) [0..<SUBJECTS];
          p = fmul (fdiv t (fmul (Fin 100) (float_of_int (int SUBJECTS)))) (Fin 100)
      in s\<lparr>total := t, percentage := p,
           grade := (if fge p (Fin 90) then ''A+''
                     else if fge p (Fin 80) then ''A''
                     else if fge p (Fin 70) then ''B''
                     else if fge p (Fin 60) then ''C''
                     else if fge p (Fin 50) then ''D''
                     else ''F'')\<rparr>)"

definition valid_name :: "string \<Rightarrow> bool" where
  "valid_name n \<longleftrightarrow> n \<noteq> []"

definition valid_marks :: "cfloat \<Rightarrow> bool" where
  "valid_marks mark \<longleftrightarrow> fge mark (Fin 0) \<and> fle mark (Fin 100)"

text \<open>A student as it is entered, before its derived fields are computed, and with them.\<close>

definition new_student :: "int \<Rightarrow> string \<Rightarrow> cfloat list \<Rightarrow> Student" where
  "new_student r n ms =
     \<lparr>roll = r, name = n, marks = ms, total = Fin 0, percentage = Fin 0, grade = []\<rparr>"

definition student_of :: "int \<Rightarrow> string \<Rightarrow> cfloat list \<Rightarrow> Student" where
  "student_of r n ms = calculate_student (new_student r n ms)"

text \<open>The threshold table of the specification, read on an exact percentage, and the
  exact sum of the three marks.\<close>

definition spec_grade :: "rat \<Rightarrow> string" where
  "spec_grade p =
     (if 90 \<le> p then ''A+''
      else if 80 \<le> p then ''A''
      else if 70 \<le> p then ''B''
      else if 60 \<le> p then ''C''
      else if 50 \<le> p then ''D''
      else ''F'')"

definition mark_sum :: "Student \<Rightarrow> rat" where
  "mark_sum s = val (marks s ! 0) + val (marks s ! 1) + val (marks s ! 2)"

section \<open>The mask toggle\<close>

lemma xor_char_twice: "xor_char (xor_char c k) k = c"
  by (cases c) (auto simp: xor_char_def)

lemma fread_bytes: "bytes (snd (fread n f)) = bytes f"
  by (simp add: fread_def Let_def)

lemma fread_fst: "fst (fread n f) = take n (drop (offset f) (bytes f))"
  by (simp add: fread_def Let_def)

lemma xor_loop_bytes:
  "offset f = pos \<Longrightarrow> pos \<le> length (bytes f) \<Longrightarrow>
   bytes (xor_loop key f pos) = take pos (bytes f) @ map (\<lambda>c. xor_char c key) (drop pos (bytes f))"
proof (induction key f pos rule: xor_loop.induct)
  case (1 key f pos)
  let ?n = "length (fst (fread 4096 f))"
  show ?case
  proof (cases "?n > 0")
    case False
    with "1.prems" have "drop pos (bytes f) = []"
      by (auto simp: fread_def Let_def)
    with False show ?thesis
      by (subst xor_loop.simps) (simp add: fread_def Let_def)
  next
    case True
    define buf where "buf = map (\<lambda>c. xor_char c key) (fst (fread 4096 f))"
    define f2 where "f2 = fwrite buf (fseek (snd (fread 4096 f)) pos)"
    define g where "g = fseek f2 (ftell f2)"
    have n: "?n = min 4096 (length (bytes f) - pos)"
      using "1.prems" by (simp add: fread_def Let_def)
    have bytes_g: "bytes g = take pos (bytes f) @ buf @ drop (pos + ?n) (bytes f)"
      using "1.prems"
      by (simp add: g_def f2_def fwrite_def fseek_def ftell_def buf_def fread_bytes)
    have off_g: "offset g = pos + ?n"
      by (simp add: g_def f2_def fwrite_def fseek_def ftell_def buf_def)
    have tell: "ftell f2 = pos + ?n"
      by (simp add: f2_def fwrite_def fseek_def ftell_def buf_def)
    have len_g: "pos + ?n \<le> length (bytes g)"
      using "1.prems" by (simp add: bytes_g buf_def n)
    have IH: "bytes (xor_loop key g (pos + ?n)) =
                take (pos + ?n) (bytes g) @ map (\<lambda>c. xor_char c key) (drop (pos + ?n) (bytes g))"
      using "1.IH" [OF True refl refl refl refl, folded buf_def, folded f2_def, folded g_def]
            off_g len_g
      by (simp add: tell)
    have step: "xor_loop key f pos = xor_loop key g (pos + ?n)"
      using True tell by (subst xor_loop.simps) (simp add: Let_def g_def f2_def buf_def)
    have buf_eq: "buf = map (\<lambda>c. xor_char c key) (take ?n (drop pos (bytes f)))"
      using "1.prems" by (simp add: buf_def fread_fst min_def)
    have len_buf: "length buf = ?n"
      by (simp add: buf_def)
    have "take (pos + ?n) (bytes g) = take pos (bytes f) @ buf"
      using "1.prems" len_buf by (simp add: bytes_g)
    moreover have "drop (pos + ?n) (bytes g) = drop (pos + ?n) (bytes f)"
      using "1.prems" len_buf by (simp add: bytes_g)
    moreover have "drop pos (bytes f) = take ?n (drop pos (bytes f)) @ drop (pos + ?n) (bytes f)"
      by (metis add.commute append_take_drop_id drop_drop)
    ultimately show ?thesis
      unfolding step IH buf_eq
      by (metis append.assoc map_append)
  qed
qed

lemma xor_file_data:
  "data (xor_file filename key fs) =
     (case fopen_rbplus fs filename of
        None \<Rightarrow> data fs
      | Some f \<Rightarrow> (data fs)(filename \<mapsto> map (\<lambda>c. xor_char c key) (bytes f)))"
proof (cases "fopen_rbplus fs filename")
  case None
  then show ?thesis by (simp add: xor_file_def)
next
  case (Some f)
  then have "offset f = 0" by (auto simp: fopen_rbplus_def split: if_splits option.splits)
  then have "bytes (xor_loop key f 0) = map (\<lambda>c. xor_char c key) (bytes f)"
    by (simp add: xor_loop_bytes)
  with Some show ?thesis by (simp add: xor_file_def)
qed

lemma xor_file_perms:
  "may_read (xor_file filename key fs) = may_read fs"
  "may_write (xor_file filename key fs) = may_write fs"
  by (auto simp: xor_file_def split: option.splits)

lemma xor_file_example:
  "data (xor_file STUDENT_FILE CHR ''!''
      \<lparr>data = (\<lambda>_. None)(STUDENT_FILE \<mapsto> ''1|Al|90.00''), may_read = (\<lambda>_. True),
       may_write = (\<lambda>_. True)\<rparr>) STUDENT_FILE = Some [CHR 0x10, CHR '']'', CHR 0x60, CHR ''M'',
         CHR '']'', CHR 0x18, CHR 0x11, CHR 0x0F, CHR 0x11, CHR 0x11]"
  by (simp add: xor_file_data fopen_rbplus_def xor_char_def)

text \<open>
  C8. Applying \<^verbatim>\<open>xor_file\<close> twice with the same key gives back the file system it
  started from, for every content of the file, every key byte and every file name: each
  byte is masked twice, and a file that cannot be opened for update is not touched at all.
\<close>

theorem xor_file_involution:
  "xor_file filename key (xor_file filename key fs) = fs"
proof -
  have "data (xor_file filename key (xor_file filename key fs)) = data fs"
  proof (cases "fopen_rbplus fs filename")
    case None
    then show ?thesis
      by (simp add: xor_file_def)
  next
    case (Some f)
    then have f: "data fs filename = Some (bytes f)" "may_read fs filename" "may_write fs filename"
      by (auto simp: fopen_rbplus_def split: if_splits option.splits)
    have "fopen_rbplus (xor_file filename key fs) filename =
            Some \<lparr>bytes = map (\<lambda>c. xor_char c key) (bytes f), offset = 0\<rparr>"
      using f Some by (simp add: fopen_rbplus_def xor_file_data xor_file_perms)
    then show ?thesis
      using f Some by (auto simp: xor_file_data xor_char_twice comp_def fun_upd_idem)
  qed
  then show ?thesis
    by (simp add: xor_file_perms)
qed

section \<open>The credential store: reading, rewriting, uniqueness\<close>

lemma reset_loop_rows:
  "reset_loop user newpass s lines found =
     (if cred_rows s = [] \<or> length lines + length (cred_rows s) \<le> 1024
      then Some (lines @ map (upd_row user newpass) (cred_rows s),
                 found \<or> user \<in> fst ` set (cred_rows s))
      else None)"
proof (induction user newpass s lines found rule: reset_loop.induct)
  case (1 user newpass s lines found)
  show ?case
  proof (cases "fscanf3 s")
    case None
    then show ?thesis
      by (subst reset_loop.simps, subst (1 2 3 4) cred_rows.simps) simp
  next
    case (Some a)
    obtain u p r s' where a: "a = ((u, p, r), s')" by (metis prod_cases3 surj_pair)
    have rows: "cred_rows s = (u, p, r) # cred_rows s'"
      using Some a by (subst cred_rows.simps) simp
    show ?thesis
    proof (cases "length lines \<ge> 1024")
      case True
      then show ?thesis
        using Some a rows by (subst reset_loop.simps) simp
    next
      case False
      show ?thesis
      proof (cases "u = user")
        case True
        have "reset_loop user newpass s lines found =
                reset_loop user newpass s' (lines @ [snprintf 256 (row_line u newpass r)]) True"
          using Some a False True by (subst reset_loop.simps) simp
        also note "1.IH"(1) [OF Some a [symmetric] refl refl _ True]
        finally show ?thesis
          using False True rows by (simp add: upd_row_def)
      next
        case neq: False
        have "reset_loop user newpass s lines found =
                reset_loop user newpass s' (lines @ [snprintf 256 (row_line u p r)]) found"
          using Some a False neq by (subst reset_loop.simps) simp
        also note "1.IH"(2) [OF Some a [symmetric] refl refl _ neq]
        finally show ?thesis
          using False neq rows by (simp add: upd_row_def)
      qed
    qed
  qed
qed

lemma remove_loop_rows:
  "remove_loop user s lines found =
     (if filter (\<lambda>row. fst row \<noteq> user) (cred_rows s) = [] \<or>
         length lines + length (filter (\<lambda>row. fst row \<noteq> user) (cred_rows s)) \<le> 1024
      then Some (lines @ map (\<lambda>(u, p, r). snprintf 256 (row_line u p r))
                            (filter (\<lambda>row. fst row \<noteq> user) (cred_rows s)),
                 found \<or> user \<in> fst ` set (cred_rows s))
      else None)"
proof (induction user s lines found rule: remove_loop.induct)
  case (1 user s lines found)
  show ?case
  proof (cases "fscanf3 s")
    case None
    then show ?thesis
      by (subst remove_loop.simps, subst (1 2 3 4) cred_rows.simps) simp
  next
    case (Some a)
    obtain u p r s' where a: "a = ((u, p, r), s')" by (metis prod_cases3 surj_pair)
    have rows: "cred_rows s = (u, p, r) # cred_rows s'"
      using Some a by (subst cred_rows.simps) simp
    show ?thesis
    proof (cases "u = user")
      case True
      have "remove_loop user s lines found = remove_loop user s' lines True"
        using Some a True by (subst remove_loop.simps) simp
      also note "1.IH"(1) [OF Some a [symmetric] refl refl True]
      finally show ?thesis
        using True rows by simp
    next
      case neq: False
      show ?thesis
      proof (cases "length lines \<ge> 1024")
        case True
        then show ?thesis
          using Some a rows neq by (subst remove_loop.simps) simp
      next
        case False
        have "remove_loop user s lines found =
                remove_loop user s' (lines @ [snprintf 256 (row_line u p r)]) found"
          using Some a False neq by (subst remove_loop.simps) simp
        also note "1.IH"(2) [OF Some a [symmetric] refl refl neq]
        finally show ?thesis
          using False neq rows by simp
      qed
    qed
  qed
qed

lemma write_lines_data:
  "data fs f = Some c \<Longrightarrow> data (write_lines lines f fs) = (data fs)(f \<mapsto> c @ concat lines)"
  by (induction lines arbitrary: fs c) (auto simp: write_lines_def fputs_def)

lemma write_lines_perms:
  "may_read (write_lines lines f fs) = may_read fs"
  "may_write (write_lines lines f fs) = may_write fs"
  by (induction lines arbitrary: fs) (auto simp: write_lines_def fputs_def)

lemma scan_s_token:
  assumes "token w t" "\<forall>c\<in>set ws. isspace c" "rest = [] \<or> isspace (hd rest)"
  shows "scan_s w (ws @ t @ rest) = Some (t, rest)"
proof -
  from assms(1) have t: "t \<noteq> []" "length t \<le> w" "\<forall>c\<in>set t. \<not> isspace c"
    "\<forall>c\<in>set t. c \<noteq> CHR 0x00"
    by (auto simp: token_def)
  have d: "dropWhile isspace (ws @ t @ rest) = t @ rest"
    using assms(2) t(1,3) by (cases t) (auto simp: dropWhile_append)
  have tw: "takeWhile (\<lambda>c. \<not> isspace c) (t @ rest) = t"
    using t(3) assms(3) by (cases rest) (auto simp: takeWhile_append)
  have "c_str t = t"
    using t(4) by (simp add: c_str_def)
  then show ?thesis
    using t(1,2) by (simp add: scan_s_def d tw)
qed

lemma fscanf3_row_line:
  assumes "token 127 u" "token 127 p" "token 63 r" "\<forall>c\<in>set ws. isspace c"
  shows "fscanf3 (ws @ row_line u p r @ rest) = Some ((u, p, r), CHR 0x0A # rest)"
proof -
  have sp: "isspace CHR '' ''" "isspace CHR 0x0A"
    by (simp_all add: isspace_def)
  have 1: "scan_s 127 (ws @ u @ ('' '' @ p @ '' '' @ r @ CHR 0x0A # rest)) =
             Some (u, '' '' @ p @ '' '' @ r @ CHR 0x0A # rest)"
    using assms(1,4) sp by (intro scan_s_token) auto
  have 2: "scan_s 127 ('' '' @ p @ ('' '' @ r @ CHR 0x0A # rest)) = Some (p, '' '' @ r @ CHR 0x0A # rest)"
    using assms(2) sp by (intro scan_s_token) auto
  have 3: "scan_s 63 ('' '' @ r @ (CHR 0x0A # rest)) = Some (r, CHR 0x0A # rest)"
    using assms(3) sp by (intro scan_s_token) auto
  show ?thesis
    using 1 2 3 by (simp add: fscanf3_def row_line_def)
qed

lemma cred_rows_ws: "\<forall>c\<in>set ws. isspace c \<Longrightarrow> cred_rows ws = []"
proof -
  assume "\<forall>c\<in>set ws. isspace c"
  then have "dropWhile isspace ws = []" by simp
  then have "fscanf3 ws = None" by (simp add: fscanf3_def scan_s_def)
  then show ?thesis by (subst cred_rows.simps) simp
qed

lemma cred_rows_text_ws:
  "\<forall>row\<in>set rows. clean_row row \<Longrightarrow> \<forall>c\<in>set ws. isspace c \<Longrightarrow>
   cred_rows (ws @ rows_text rows) = rows"
proof (induction rows arbitrary: ws)
  case Nil
  then show ?case by (simp add: rows_text_def cred_rows_ws)
next
  case (Cons row rows)
  obtain u p r where row: "row = (u, p, r)" by (cases row)
  from Cons.prems row have tok: "token 127 u" "token 127 p" "token 63 r"
    by (auto simp: clean_row_def)
  have "fscanf3 (ws @ row_line u p r @ rows_text rows) = Some ((u, p, r), CHR 0x0A # rows_text rows)"
    using tok Cons.prems(2) by (rule fscanf3_row_line)
  moreover have "cred_rows ([CHR 0x0A] @ rows_text rows) = rows"
    using Cons.prems by (intro Cons.IH) (auto simp: isspace_def)
  ultimately show ?case
    by (subst cred_rows.simps) (simp add: row rows_text_def)
qed

lemma cred_rows_text: "\<forall>row\<in>set rows. clean_row row \<Longrightarrow> cred_rows (rows_text rows) = rows"
  using cred_rows_text_ws [of rows "[]"] by simp

lemma snprintf_fits: "length s \<le> 255 \<Longrightarrow> snprintf 256 s = s"
  by (simp add: snprintf_def)

lemma fopen_w_data:
  "fopen_w fs f = Some fs' \<Longrightarrow> data fs' f = Some [] \<and> fs' = fs\<lparr>data := (data fs)(f \<mapsto> [])\<rparr>"
  by (auto simp: fopen_w_def split: if_splits)

lemma write_lines_after_fopen_w:
  "may_write fs f \<Longrightarrow>
   (case fopen_w fs f of None \<Rightarrow> Some (0::int, fs) | Some fs' \<Rightarrow> Some (1, write_lines lines f fs')) =
   Some (1, fs\<lparr>data := (data fs)(f \<mapsto> concat lines)\<rparr>)"
proof -
  assume w: "may_write fs f"
  let ?fs' = "fs\<lparr>data := (data fs)(f \<mapsto> [])\<rparr>"
  have "data (write_lines lines f ?fs') = (data ?fs')(f \<mapsto> [] @ concat lines)"
    by (rule write_lines_data) simp
  then have "write_lines lines f ?fs' = fs\<lparr>data := (data fs)(f \<mapsto> concat lines)\<rparr>"
    by (simp add: write_lines_perms)
  with w show ?thesis
    by (simp add: fopen_w_def)
qed

lemma remove_credential_effect:
  assumes "fopen_r fs CREDENTIAL_FILE = Some c"
    and "may_write fs CREDENTIAL_FILE"
    and "length (filter (\<lambda>row. fst row \<noteq> user) (cred_rows c)) \<le> 1024"
    and "\<forall>(u, p, r) \<in> set (cred_rows c). u \<noteq> user \<longrightarrow> length (row_line u p r) \<le> 255"
  shows "remove_credential user fs =
     Some (if user \<in> fst ` set (cred_rows c)
           then (1, fs\<lparr>data := (data fs)(CREDENTIAL_FILE \<mapsto>
                       rows_text (filter (\<lambda>row. fst row \<noteq> user) (cred_rows c)))\<rparr>)
           else (0, fs))"
proof -
  let ?keep = "filter (\<lambda>row. fst row \<noteq> user) (cred_rows c)"
  have "map (\<lambda>(u, p, r). snprintf 256 (row_line u p r)) ?keep = map (\<lambda>(u, p, r). row_line u p r) ?keep"
    using assms(4) by (auto simp: snprintf_fits)
  then have loop: "remove_loop user c [] False =
      Some (map (\<lambda>(u, p, r). row_line u p r) ?keep, user \<in> fst ` set (cred_rows c))"
    using assms(3) by (simp add: remove_loop_rows)
  show ?thesis
    using assms(1,2) write_lines_after_fopen_w [OF assms(2)]
    by (simp add: remove_credential_def loop rows_text_def)
qed

lemma reset_password_effect:
  assumes "fopen_r fs CREDENTIAL_FILE = Some c"
    and "may_write fs CREDENTIAL_FILE"
    and "length (cred_rows c) \<le> 1024"
    and "\<forall>(u, p, r) \<in> set (cred_rows c).
           length (row_line u (if u = user then newpass else p) r) \<le> 255"
  shows "reset_password user newpass fs =
     Some (if user \<in> fst ` set (cred_rows c)
           then (1, fs\<lparr>data := (data fs)(CREDENTIAL_FILE \<mapsto>
                       rows_text (map (\<lambda>(u, p, r). (u, if u = user then newpass else p, r))
                                      (cred_rows c)))\<rparr>)
           else (0, fs))"
proof -
  have "map (upd_row user newpass) (cred_rows c) =
        map (\<lambda>(u, p, r). row_line u (if u = user then newpass else p) r) (cred_rows c)"
    using assms(4) by (auto simp: upd_row_def snprintf_fits)
  then have loop: "reset_loop user newpass c [] False =
      Some (map (\<lambda>(u, p, r). row_line u (if u = user then newpass else p) r) (cred_rows c),
            user \<in> fst ` set (cred_rows c))"
    using assms(3) by (simp add: reset_loop_rows)
  have "rows_text (map (\<lambda>(u, p, r). (u, if u = user then newpass else p, r)) (cred_rows c)) =
        concat (map (\<lambda>(u, p, r). row_line u (if u = user then newpass else p) r) (cred_rows c))"
    by (simp add: rows_text_def comp_def case_prod_unfold)
  then show ?thesis
    using assms(1,2) write_lines_after_fopen_w [OF assms(2)]
    by (simp add: reset_password_def loop)
qed

lemma ensure_default_credentials_boot:
  "ensure_default_credentials (all_open (\<lambda>_. None)) =
     all_open ((\<lambda>_. None)(CREDENTIAL_FILE \<mapsto> rows_text default_rows))"
  by (simp add: ensure_default_credentials_def all_open_def fopen_r_def fopen_w_def fputs_def
        rows_text_def default_rows_def row_line_def)

lemma clean_default_rows: "\<forall>row\<in>set default_rows. clean_row row"
  by (simp add: default_rows_def clean_row_def token_def isspace_def)

lemma cred_rows_default: "cred_rows (rows_text default_rows) = default_rows"
  using clean_default_rows by (rule cred_rows_text)

lemma clean_long_rows: "\<forall>row\<in>set long_rows. clean_row row"
  by (simp add: long_rows_def clean_row_def token_def isspace_def)

lemma cred_rows_long: "cred_rows (rows_text long_rows) = long_rows"
  using clean_long_rows by (rule cred_rows_text)

lemma cred_inv_usernames: "cred_inv n fs \<Longrightarrow> distinct (usernames fs)"
  by (auto simp: cred_inv_def usernames_def rows_of_def cred_rows_text)

lemma reset_password_unwritable:
  assumes "fopen_r fs CREDENTIAL_FILE = Some c" "\<not> may_write fs CREDENTIAL_FILE"
    "length (cred_rows c) \<le> 1024"
  shows "reset_password user newpass fs = Some (0, fs)"
  using assms by (simp add: reset_password_def reset_loop_rows fopen_w_def)

lemma remove_credential_unwritable:
  assumes "fopen_r fs CREDENTIAL_FILE = Some c" "\<not> may_write fs CREDENTIAL_FILE"
    "length (cred_rows c) \<le> 1024"
  shows "remove_credential user fs = Some (0, fs)"
proof -
  have "length (filter (\<lambda>row. fst row \<noteq> user) (cred_rows c)) \<le> 1024"
    using assms(3) by (meson le_trans length_filter_le)
  then show ?thesis
    using assms(1,2) by (simp add: remove_credential_def remove_loop_rows fopen_w_def)
qed

lemma rows_text_append: "rows_text (xs @ ys) = rows_text xs @ rows_text ys"
  by (simp add: rows_text_def)

lemma cred_step_inv:
  assumes inv: "cred_inv n fs" and n: "n \<le> 1024" and adm: "admissible x fs"
  shows "\<exists>fs'. cred_step x fs = Some fs' \<and> cred_inv (Suc n) fs'"
proof -
  from inv obtain rows where rows: "data fs CREDENTIAL_FILE = Some (rows_text rows)"
    "\<forall>row\<in>set rows. clean_row row \<and> fits row" "distinct (map fst rows)" "length rows \<le> n"
    by (auto simp: cred_inv_def)
  have read: "cred_rows (rows_text rows) = rows"
    using rows(2) by (simp add: cred_rows_text)
  have inv': "cred_inv (Suc n) fs"
    using rows by (auto simp: cred_inv_def)
  show ?thesis
  proof (cases x)
    case (Authenticate u p)
    then show ?thesis using inv' by simp
  next
    case (Add u p r)
    show ?thesis
    proof (cases "may_write fs CREDENTIAL_FILE")
      case False
      then show ?thesis using Add inv' by (simp add: add_credential_def fopen_a_def)
    next
      case True
      have new: "clean_row (u, p, r)" "fits (u, p, r)" "u \<notin> fst ` set rows"
        using adm Add rows(1) read
        by (auto simp: clean_row_def fits_def usernames_def rows_of_def)
      have "data (snd (add_credential u p r fs)) CREDENTIAL_FILE = Some (rows_text (rows @ [(u, p, r)]))"
        using True rows(1)
        by (simp add: add_credential_def fopen_a_def fputs_def rows_text_append)
           (simp add: rows_text_def)
      moreover have "\<forall>row\<in>set (rows @ [(u, p, r)]). clean_row row \<and> fits row"
        using rows(2) new by auto
      moreover have "distinct (map fst (rows @ [(u, p, r)]))"
        using rows(3) new(3) by auto
      moreover have "length (rows @ [(u, p, r)]) \<le> Suc n"
        using rows(4) by simp
      ultimately show ?thesis
        unfolding cred_inv_def Add cred_step.simps by blast
    qed
  next
    case (ResetPassword u p)
    show ?thesis
    proof (cases "fopen_r fs CREDENTIAL_FILE")
      case None
      then show ?thesis using ResetPassword inv' by (simp add: reset_password_def)
    next
      case (Some c)
      then have c: "c = rows_text rows"
        using rows(1) by (auto simp: fopen_r_def split: if_splits)
      show ?thesis
      proof (cases "may_write fs CREDENTIAL_FILE")
        case False
        have "reset_password u p fs = Some (0, fs)"
          using Some False by (rule reset_password_unwritable) (use c read rows(4) n in simp)
        then show ?thesis using ResetPassword inv' by simp
      next
        case True
        let ?new = "map (\<lambda>(u', p', r'). (u', if u' = u then p else p', r')) rows"
        have fit: "\<forall>(u', p', r') \<in> set (cred_rows c).
                length (row_line u' (if u' = u then p else p') r') \<le> 255"
          using adm ResetPassword rows(1,2) read c
          by (auto simp: rows_of_def fits_def)
        have res: "reset_password u p fs =
            Some (if u \<in> fst ` set (cred_rows c)
                  then (1, fs\<lparr>data := (data fs)(CREDENTIAL_FILE \<mapsto> rows_text
                          (map (\<lambda>(u', p', r'). (u', if u' = u then p else p', r')) (cred_rows c)))\<rparr>)
                  else (0, fs))"
          using Some True by (rule reset_password_effect) (use c read rows(4) n fit in simp_all)
        have tp: "token 127 p"
          using adm ResetPassword by simp
        have clean: "\<forall>row\<in>set ?new. clean_row row \<and> fits row"
          using rows(2) tp fit c read by (auto simp: clean_row_def fits_def)
        have fst_new: "map fst ?new = map fst rows"
          by (induction rows) auto
        have d: "distinct (map fst ?new)"
          unfolding fst_new by (rule rows(3))
        have l: "length ?new \<le> Suc n"
          using rows(4) by simp
        have "cred_inv (Suc n) (fs\<lparr>data := (data fs)(CREDENTIAL_FILE \<mapsto> rows_text ?new)\<rparr>)"
          unfolding cred_inv_def
          by (rule exI [of _ ?new], intro conjI) (simp, rule clean, rule d, rule l)
        then show ?thesis
          using res inv' ResetPassword c read by (simp split: if_splits)
      qed
    qed
  next
    case (Remove u)
    show ?thesis
    proof (cases "fopen_r fs CREDENTIAL_FILE")
      case None
      then show ?thesis using Remove inv' by (simp add: remove_credential_def)
    next
      case (Some c)
      then have c: "c = rows_text rows"
        using rows(1) by (auto simp: fopen_r_def split: if_splits)
      show ?thesis
      proof (cases "may_write fs CREDENTIAL_FILE")
        case False
        have "remove_credential u fs = Some (0, fs)"
          using Some False by (rule remove_credential_unwritable) (use c read rows(4) n in simp)
        then show ?thesis using Remove inv' by simp
      next
        case True
        let ?new = "filter (\<lambda>row. fst row \<noteq> u) rows"
        have len: "length ?new \<le> 1024"
          using rows(4) n by (meson le_trans length_filter_le)
        have res: "remove_credential u fs =
            Some (if u \<in> fst ` set (cred_rows c)
                  then (1, fs\<lparr>data := (data fs)(CREDENTIAL_FILE \<mapsto> rows_text
                          (filter (\<lambda>row. fst row \<noteq> u) (cred_rows c)))\<rparr>)
                  else (0, fs))"
          using Some True
          by (rule remove_credential_effect) (use c read len rows(2) in \<open>auto simp: fits_def\<close>)
        have "\<forall>row\<in>set ?new. clean_row row \<and> fits row"
          using rows(2) by auto
        moreover have "distinct (map fst ?new)"
          using rows(3) by (simp add: distinct_map_filter)
        moreover have "length ?new \<le> Suc n"
          using rows(4) by (meson le_SucI le_trans length_filter_le)
        ultimately have "cred_inv (Suc n) (fs\<lparr>data := (data fs)(CREDENTIAL_FILE \<mapsto> rows_text ?new)\<rparr>)"
          unfolding cred_inv_def by (intro exI [of _ ?new]) simp
        then show ?thesis
          using res inv' Remove c read by (simp split: if_splits)
      qed
    qed
  qed
qed

lemma cred_run_inv:
  "cred_inv n fs \<Longrightarrow> n + length xs \<le> 1025 \<Longrightarrow> admissible_run xs fs \<Longrightarrow>
   \<exists>fs'. cred_run xs fs = Some fs' \<and> cred_inv (n + length xs) fs'"
proof (induction xs arbitrary: n fs)
  case Nil
  then show ?case by simp
next
  case (Cons x xs)
  from Cons.prems have "n \<le> 1024" "admissible x fs" by simp_all
  with Cons.prems(1) obtain fs1 where 1: "cred_step x fs = Some fs1" "cred_inv (Suc n) fs1"
    using cred_step_inv by blast
  with Cons.prems have "Suc n + length xs \<le> 1025" "admissible_run xs fs1" by simp_all
  with 1(2) obtain fs' where "cred_run xs fs1 = Some fs'" "cred_inv (Suc n + length xs) fs'"
    using Cons.IH by blast
  with 1(1) show ?case by simp
qed

lemma fopen_r_boot: "fopen_r boot_fs CREDENTIAL_FILE = Some (rows_text default_rows)"
  by (simp add: boot_fs_def all_open_def fopen_r_def)

lemma may_write_boot: "may_write boot_fs CREDENTIAL_FILE"
  by (simp add: boot_fs_def all_open_def)

lemma cred_inv_boot:
  assumes "fopen_r fs0 CREDENTIAL_FILE = None" "may_write fs0 CREDENTIAL_FILE"
  shows "cred_inv 5 (ensure_default_credentials fs0)"
proof -
  have "data (ensure_default_credentials fs0) CREDENTIAL_FILE = Some (rows_text default_rows)"
    using assms
    by (simp add: ensure_default_credentials_def fopen_w_def fputs_def rows_text_def
          default_rows_def row_line_def)
  moreover have "\<forall>row\<in>set default_rows. clean_row row \<and> fits row"
    using clean_default_rows by (simp add: default_rows_def fits_def row_line_def)
  moreover have "distinct (map fst default_rows)" "length default_rows \<le> 5"
    by (simp_all add: default_rows_def)
  ultimately show ?thesis
    unfolding cred_inv_def by blast
qed

text \<open>
  C4 (as amended). Starting from the bootstrapped credential file, every run of at most
  1020 admissible operations returns, and leaves a file in which no two rows have the
  same user name. Admissible means that \<open>Add\<close> comes with a user name that has no
  row yet: \<^verbatim>\<open>add_credential\<close> itself appends its row without reading the file.
\<close>

theorem credential_rows_unique:
  assumes "fopen_r fs0 CREDENTIAL_FILE = None" and "may_write fs0 CREDENTIAL_FILE"
    and "admissible_run ops (ensure_default_credentials fs0)" and "length ops \<le> 1020"
  shows "\<exists>fs'. cred_run ops (ensure_default_credentials fs0) = Some fs' \<and> distinct (usernames fs')"
proof -
  have "cred_inv 5 (ensure_default_credentials fs0)"
    using assms(1,2) by (rule cred_inv_boot)
  moreover have "5 + length ops \<le> 1025"
    using assms(4) by simp
  ultimately obtain fs' where "cred_run ops (ensure_default_credentials fs0) = Some fs'"
    "cred_inv (5 + length ops) fs'"
    using assms(3) cred_run_inv by blast
  then show ?thesis
    using cred_inv_usernames by blast
qed

theorem credential_rows_unique_witness:
  "\<exists>fs'. cred_run sample_ops (ensure_default_credentials (all_open (\<lambda>_. None))) = Some fs' \<and>
         distinct (usernames fs')"
proof -
  have adm: "admissible_run sample_ops (ensure_default_credentials (all_open (\<lambda>_. None)))"
    by code_simp
  have pre: "fopen_r (all_open (\<lambda>_. None)) CREDENTIAL_FILE = None"
    "may_write (all_open (\<lambda>_. None)) CREDENTIAL_FILE" "length sample_ops \<le> 1020"
    by (simp_all add: all_open_def fopen_r_def sample_ops_def)
  show ?thesis
    using pre(1,2) adm pre(3) by (rule credential_rows_unique)
qed

lemma sample_ops_usernames:
  "map_option usernames (cred_run sample_ops (ensure_default_credentials (all_open (\<lambda>_. None)))) =
     Some [''admin'', ''guest'', ''principal'', ''student'', ''carol'']"
  by code_simp

text \<open>
  C4 as stated fails: adding the user name \<open>admin\<close> to the bootstrapped file leaves two
  rows for it.
\<close>

theorem add_credential_duplicate:
  "usernames (snd (add_credential ''admin'' ''x'' ''GUEST''
       (ensure_default_credentials (all_open (\<lambda>_. None))))) =
     [''admin'', ''staff'', ''guest'', ''principal'', ''student'', ''admin'']
   \<and> map_option usernames (cred_run [Add ''admin'' ''x'' ''GUEST'']
       (ensure_default_credentials (all_open (\<lambda>_. None)))) =
     Some [''admin'', ''staff'', ''guest'', ''principal'', ''student'', ''admin'']"
  by code_simp

text \<open>
  C10. \<^verbatim>\<open>remove_credential\<close> is to delete the rows of the given user name and
  to keep all the other rows, in their order. It does not when the line of a row to keep
  is longer than the 255 characters of a line buffer, though \<^verbatim>\<open>add_credential\<close>
  writes such rows: after a user with a name and a password of 127 characters each has
  been added to the bootstrapped file, removing \<open>guest\<close> returns 1 and cuts the
  line of the long user behind the password, so that the file read back has lost the
  row of that user as well.
\<close>

theorem remove_credential_long_row:
  "(let A = replicate 127 CHR ''a''; B = replicate 127 CHR ''b'';
        fs1 = snd (add_credential A B ''ADMIN'' (ensure_default_credentials (all_open (\<lambda>_. None))))
    in rows_of fs1 = default_rows @ [(A, B, ''ADMIN'')] \<and>
       map_option (\<lambda>(rc, fs'). (rc, rows_of fs')) (remove_credential ''guest'' fs1) =
         Some (1, [(''admin'', ''admin'', ''ADMIN''), (''staff'', ''staff'', ''STAFF''),
                   (''principal'', ''principal'', ''PRINCIPAL''),
                   (''student'', ''student'', ''STUDENT'')]))"
  by code_simp

text \<open>
  C9. \<^verbatim>\<open>reset_password\<close> is to rewrite the rows of the given user name and to
  leave every other row as it is. On the same file it does not: resetting the password
  of \<open>guest\<close> returns 1, and the row of the long user, cut behind its password, is no
  longer read back. With a row behind it, a cut row takes the next user name for its
  role.
\<close>

theorem reset_password_long_row:
  "(let A = replicate 127 CHR ''a''; B = replicate 127 CHR ''b'';
        fs1 = snd (add_credential A B ''ADMIN'' (ensure_default_credentials (all_open (\<lambda>_. None))))
    in rows_of fs1 = default_rows @ [(A, B, ''ADMIN'')] \<and>
       map_option (\<lambda>(rc, fs'). (rc, rows_of fs')) (reset_password ''guest'' ''x'' fs1) =
         Some (1, [(''admin'', ''admin'', ''ADMIN''), (''staff'', ''staff'', ''STAFF''),
                   (''guest'', ''x'', ''GUEST''), (''principal'', ''principal'', ''PRINCIPAL''),
                   (''student'', ''student'', ''STUDENT'')])) \<and>
   map_option (\<lambda>(rc, fs'). (rc, map_option cred_rows (data fs' CREDENTIAL_FILE)))
       (reset_password ''bob'' ''x'' (all_open ((\<lambda>_. None)(CREDENTIAL_FILE \<mapsto> rows_text long_rows))))
     = Some (1, Some [(replicate 127 CHR ''a'', replicate 127 CHR ''b'', ''bob'')])"
  by code_simp

section \<open>Properties of rounding\<close>

lemma bitlen_pos: "0 < n \<Longrightarrow> 1 \<le> bitlen n"
proof -
  have "0 \<le> bitlen m" for m
    by (induction m rule: bitlen.induct) (subst bitlen.simps, simp)
  from this [of "n div 2"] show "0 < n \<Longrightarrow> 1 \<le> bitlen n"
    by (subst bitlen.simps) simp
qed

lemma bitlen_bounds:
  "0 < n \<Longrightarrow> 2 ^ nat (bitlen n - 1) \<le> n \<and> n < 2 ^ nat (bitlen n)"
proof (induction n rule: bitlen.induct)
  case (1 n)
  show ?case
  proof (cases "n = 1")
    case True
    have "bitlen 1 = 1"
      by (subst bitlen.simps, subst bitlen.simps) simp
    with True show ?thesis by simp
  next
    case False
    with "1.prems" have h: "0 < n div 2" by simp
    define b where "b = bitlen (n div 2)"
    have b1: "1 \<le> b" unfolding b_def using h by (rule bitlen_pos)
    have IH: "2 ^ nat (b - 1) \<le> n div 2" "n div 2 < 2 ^ nat b"
      using "1.IH" h "1.prems" by (simp_all add: b_def)
    have bn: "bitlen n = 1 + b"
      using "1.prems" by (subst bitlen.simps) (simp add: b_def)
    have p: "(2::int) ^ nat b = 2 * 2 ^ nat (b - 1)"
      using b1 by (metis Suc_nat_eq_nat_zadd1 add.commute diff_add_cancel diff_ge_0_iff_ge power_Suc)
    have "(2::int) ^ nat b \<le> n"
      using IH(1) p by linarith
    moreover have "n < 2 ^ nat (1 + b)"
    proof -
      have "n < 2 * (n div 2) + 2" by linarith
      also have "\<dots> \<le> 2 * 2 ^ nat b" using IH(2) by linarith
      also have "\<dots> = 2 ^ nat (1 + b)"
        using b1 by (simp add: nat_add_distrib)
      finally show ?thesis .
    qed
    ultimately show ?thesis
      by (simp add: bn)
  qed
qed

lemma powi_of_int:
  "0 \<le> k \<Longrightarrow> (2::rat) powi k = of_int (2 ^ nat k)"
  "1 \<le> k \<Longrightarrow> (2::rat) powi (k - 1) = of_int (2 ^ nat (k - 1))"
  by (simp_all add: power_int_def)

lemma expo_bounds:
  assumes "x \<noteq> 0"
  shows "2 powi (expo x) \<le> \<bar>x\<bar>" and "\<bar>x\<bar> < 2 powi (expo x + 1)"
proof -
  obtain a b where ab: "quotient_of \<bar>x\<bar> = (a, b)" by (cases "quotient_of \<bar>x\<bar>")
  then have b: "0 < b" and x: "\<bar>x\<bar> = of_int a / of_int b"
    by (auto dest: quotient_of_denom_pos quotient_of_div)
  have "0 < \<bar>x\<bar>" using assms by simp
  then have "(0::rat) < of_int a / of_int b" by (simp add: x)
  then have a: "0 < a" using b by (simp add: zero_less_divide_iff)
  define e where "e = bitlen a - bitlen b"
  have ka: "1 \<le> bitlen a" and kb: "1 \<le> bitlen b"
    using a b by (simp_all add: bitlen_pos)
  have A: "(2::rat) powi (bitlen a - 1) \<le> of_int a" "(of_int a :: rat) < 2 powi (bitlen a)"
    unfolding powi_of_int(2) [OF ka] powi_of_int(1) [OF order_trans [OF zero_le_one ka]]
      of_int_le_iff of_int_less_iff
    using bitlen_bounds [OF a] by simp_all
  have B: "(2::rat) powi (bitlen b - 1) \<le> of_int b" "(of_int b :: rat) < 2 powi (bitlen b)"
    unfolding powi_of_int(2) [OF kb] powi_of_int(1) [OF order_trans [OF zero_le_one kb]]
      of_int_le_iff of_int_less_iff
    using bitlen_bounds [OF b] by simp_all
  have bp: "(0::rat) < of_int b" using b by simp
  have ap: "(0::rat) < of_int a" using a by simp
  have up: "\<bar>x\<bar> < 2 powi (e + 1)"
  proof -
    have "of_int a / of_int b < (2::rat) powi (bitlen a) / of_int b"
      using A(2) bp by (simp add: divide_strict_right_mono)
    also have "\<dots> \<le> 2 powi (bitlen a) / 2 powi (bitlen b - 1)"
      using B(1) by (intro divide_left_mono) (auto intro!: mult_pos_pos bp)
    also have "\<dots> = 2 powi (e + 1)"
      by (simp add: e_def power_int_diff [symmetric] algebra_simps)
    finally show ?thesis by (simp add: x)
  qed
  have lo: "2 powi (e - 1) < \<bar>x\<bar>"
  proof -
    have "(2::rat) powi (e - 1) = 2 powi (bitlen a - 1) / 2 powi (bitlen b)"
      by (simp add: e_def power_int_diff [symmetric] algebra_simps)
    also have "\<dots> \<le> of_int a / 2 powi (bitlen b)"
      using A(1) by (simp add: divide_right_mono)
    also have "\<dots> < of_int a / of_int b"
      using B(2) ap bp by (intro divide_strict_left_mono) (auto intro!: mult_pos_pos)
    finally show ?thesis by (simp add: x)
  qed
  have ex: "expo x = (if 2 powi e \<le> \<bar>x\<bar> then e else e - 1)"
    by (simp add: expo_def ab e_def)
  show "2 powi (expo x) \<le> \<bar>x\<bar>"
    using lo by (simp add: ex)
  show "\<bar>x\<bar> < 2 powi (expo x + 1)"
    using up by (simp add: ex)
qed

lemma round_even_error: "\<bar>of_int (round_even y) - y\<bar> \<le> 1 / 2"
proof -
  let ?f = "of_int \<lfloor>y\<rfloor> :: rat"
  have b: "?f \<le> y" "y < ?f + 1"
    by linarith+
  show ?thesis
    using b
    by (cases "y - ?f < 1 / 2"; cases "1 / 2 < y - ?f"; cases "even \<lfloor>y\<rfloor>";
        simp add: round_even_def Let_def abs_if; linarith)
qed

lemma round_even_of_int: "round_even (of_int k) = k"
  by (simp add: round_even_def)

lemma round_even_mono: "x \<le> y \<Longrightarrow> round_even x \<le> round_even y"
proof -
  assume xy: "x \<le> y"
  have fl: "\<lfloor>x\<rfloor> \<le> \<lfloor>y\<rfloor>" using xy by (rule floor_mono)
  show ?thesis
  proof (cases "\<lfloor>x\<rfloor> = \<lfloor>y\<rfloor>")
    case True
    with xy show ?thesis
      by (auto simp: round_even_def Let_def)
  next
    case False
    with fl have "\<lfloor>x\<rfloor> + 1 \<le> \<lfloor>y\<rfloor>" by simp
    moreover have "round_even x \<le> \<lfloor>x\<rfloor> + 1" "\<lfloor>y\<rfloor> \<le> round_even y"
      by (auto simp: round_even_def Let_def)
    ultimately show ?thesis by linarith
  qed
qed

lemma round_even_ge_int: "of_int k \<le> y \<Longrightarrow> k \<le> round_even y"
  using round_even_mono [of "of_int k" y] by (simp add: round_even_of_int)

lemma round_even_le_int: "y \<le> of_int k \<Longrightarrow> round_even y \<le> k"
  using round_even_mono [of y "of_int k"] by (simp add: round_even_of_int)

lemma round_even_minus: "round_even (- y) = - round_even y"
proof (cases "y \<in> \<int>")
  case True
  then obtain k where "y = of_int k" by (auto elim: Ints_cases)
  then show ?thesis
    by (simp add: round_even_of_int flip: of_int_minus)
next
  case False
  have neq: "of_int \<lfloor>y\<rfloor> \<noteq> y"
    using False by (metis Ints_of_int)
  then have f: "\<lfloor>- y\<rfloor> = - \<lfloor>y\<rfloor> - 1"
    by (simp add: floor_minus ceiling_altdef)
  have le: "of_int \<lfloor>y\<rfloor> \<le> y" "y < of_int \<lfloor>y\<rfloor> + 1"
    by linarith+
  have b: "of_int \<lfloor>y\<rfloor> < y" "y < of_int \<lfloor>y\<rfloor> + 1"
    using neq le by linarith+
  show ?thesis
    using b
    by (cases "y - of_int \<lfloor>y\<rfloor> < 1 / 2"; cases "1 / 2 < y - of_int \<lfloor>y\<rfloor>";
        cases "even \<lfloor>y\<rfloor>"; simp add: round_even_def Let_def f; linarith?)
qed

lemma expo_minus: "expo (- x) = expo x"
  by (simp add: expo_def)

lemma expo_mono:
  assumes "0 < x" "x \<le> y"
  shows "expo x \<le> expo y"
proof (rule ccontr)
  assume "\<not> expo x \<le> expo y"
  then have "expo y + 1 \<le> expo x" by simp
  then have "(2::rat) powi (expo y + 1) \<le> 2 powi (expo x)"
    by (intro power_int_increasing) auto
  also have "\<dots> \<le> \<bar>x\<bar>" using assms(1) by (intro expo_bounds) auto
  also have "\<dots> \<le> \<bar>y\<bar>" using assms by simp
  also have "\<dots> < 2 powi (expo y + 1)" using assms by (intro expo_bounds) auto
  finally show False by simp
qed

lemma round_fmt_quantum:
  "x \<noteq> 0 \<Longrightarrow> round_fmt p emin x =
     of_int (round_even (x / 2 powi (max (expo x) emin - int p + 1))) *
       2 powi (max (expo x) emin - int p + 1)"
  by (simp add: round_fmt_def Let_def)

lemma round_fmt_zero [simp]: "round_fmt p emin 0 = 0"
  by (simp add: round_fmt_def)

lemma round_fmt_error:
  assumes "x \<noteq> 0"
  shows "\<bar>round_fmt p emin x - x\<bar> \<le> 2 powi (max (expo x) emin - int p + 1) / 2"
proof -
  define q :: rat where "q = 2 powi (max (expo x) emin - int p + 1)"
  have q: "0 < q" by (simp add: q_def)
  have rt: "round_fmt p emin x = of_int (round_even (x / q)) * q"
    using assms by (simp add: round_fmt_quantum q_def)
  have "round_fmt p emin x - x = (of_int (round_even (x / q)) - x / q) * q"
    using q by (simp add: rt field_simps)
  then have "\<bar>round_fmt p emin x - x\<bar> = \<bar>of_int (round_even (x / q)) - x / q\<bar> * q"
    using q by (simp add: abs_mult)
  also have "\<dots> \<le> 1 / 2 * q"
    using q round_even_error [of "x / q"] by (intro mult_right_mono) auto
  finally show ?thesis by (simp add: q_def)
qed

lemma expo_le:
  assumes "x \<noteq> 0" "\<bar>x\<bar> \<le> 2 powi k"
  shows "expo x \<le> k"
proof (rule ccontr)
  assume "\<not> expo x \<le> k"
  then have "k + 1 \<le> expo x" by simp
  then have "(2::rat) powi (k + 1) \<le> 2 powi (expo x)"
    by (intro power_int_increasing) auto
  moreover have "(2::rat) powi k < 2 powi (k + 1)"
    by (intro power_int_strict_increasing) auto
  ultimately show False
    using expo_bounds(1) [OF assms(1)] assms(2) by linarith
qed

text \<open>The error of rounding a number of magnitude at most \<open>2 powi k\<close>.\<close>

lemma round_fmt_abs_error:
  assumes "\<bar>x\<bar> \<le> 2 powi k" "emin \<le> k"
  shows "\<bar>round_fmt p emin x - x\<bar> \<le> 2 powi (k - int p)"
proof (cases "x = 0")
  case True
  then show ?thesis by simp
next
  case False
  have "max (expo x) emin \<le> k"
    using expo_le [OF False assms(1)] assms(2) by simp
  have "(2::rat) powi (max (expo x) emin - int p + 1) / 2 = 2 powi (max (expo x) emin - int p)"
    by (simp add: power_int_add)
  also have "\<dots> \<le> 2 powi (k - int p)"
    using \<open>max (expo x) emin \<le> k\<close> by (intro power_int_increasing) auto
  finally show ?thesis
    using round_fmt_error [OF False, of p emin] by linarith
qed

lemma round_fmt_minus: "round_fmt p emin (- x) = - round_fmt p emin x"
  by (simp add: round_fmt_def Let_def expo_minus round_even_minus)

lemma round_fmt_nonneg:
  assumes "0 \<le> x"
  shows "0 \<le> round_fmt p emin x"
proof (cases "x = 0")
  case True
  then show ?thesis by simp
next
  case False
  define q :: rat where "q = 2 powi (max (expo x) emin - int p + 1)"
  have q: "0 < q" by (simp add: q_def)
  have "of_int 0 \<le> x / q" using assms q by simp
  then have "0 \<le> round_even (x / q)" by (rule round_even_ge_int)
  then have "(0::rat) \<le> of_int (round_even (x / q))" by simp
  then show ?thesis
    using q False by (simp add: round_fmt_quantum q_def [symmetric])
qed

lemma round_fmt_nonpos: "x \<le> 0 \<Longrightarrow> round_fmt p emin x \<le> 0"
  using round_fmt_nonneg [of "- x" p emin] by (simp add: round_fmt_minus)

lemma round_fmt_upper:
  assumes "0 < x"
  shows "round_fmt p emin x \<le> 2 powi (max (expo x) emin + 1)"
proof -
  define e where "e = max (expo x) emin"
  define q :: rat where "q = 2 powi (e - int p + 1)"
  have q: "0 < q" by (simp add: q_def)
  have "x \<le> 2 powi (expo x + 1)"
    using expo_bounds(2) [of x] assms by simp
  also have "\<dots> \<le> 2 powi (e + 1)"
    by (intro power_int_increasing) (auto simp: e_def)
  finally have "x / q \<le> 2 powi (e + 1) / q"
    using q by (intro divide_right_mono) auto
  also have "\<dots> = 2 powi (int p)"
    by (simp add: q_def power_int_diff [symmetric])
  also have "\<dots> = of_int (2 ^ p)"
    by simp
  finally have "round_even (x / q) \<le> 2 ^ p"
    by (rule round_even_le_int)
  then have "(of_int (round_even (x / q)) :: rat) \<le> of_int (2 ^ p)"
    by (simp only: of_int_le_iff)
  then have "round_fmt p emin x \<le> of_int (2 ^ p) * q"
    using q assms by (simp add: round_fmt_quantum q_def [symmetric] e_def [symmetric])
  moreover have "of_int (2 ^ p) * q = 2 powi (e + 1)"
    by (simp add: q_def power_int_add [symmetric] flip: power_int_of_nat)
  ultimately show ?thesis by (simp add: e_def)
qed

lemma round_fmt_lower:
  assumes "0 < x" "1 \<le> p" "emin \<le> expo x"
  shows "2 powi (expo x) \<le> round_fmt p emin x"
proof -
  define q :: rat where "q = 2 powi (expo x - int p + 1)"
  have q: "0 < q" by (simp add: q_def)
  have m: "max (expo x) emin = expo x" using assms(3) by simp
  have "(2::rat) powi (int p - 1) = 2 powi (expo x) / q"
    by (simp add: q_def power_int_diff [symmetric])
  also have "\<dots> \<le> x / q"
    using expo_bounds(1) [of x] assms q by (intro divide_right_mono) auto
  finally have "of_int (2 ^ (p - 1)) \<le> x / q"
    using assms(2) by (simp add: power_int_def nat_diff_distrib')
  then have "2 ^ (p - 1) \<le> round_even (x / q)"
    by (rule round_even_ge_int)
  then have "(of_int (2 ^ (p - 1)) :: rat) \<le> of_int (round_even (x / q))"
    by (simp only: of_int_le_iff)
  then have "of_int (2 ^ (p - 1)) * q \<le> round_fmt p emin x"
    using q assms(1) by (simp add: round_fmt_quantum m q_def [symmetric])
  moreover have "of_int (2 ^ (p - 1)) * q = 2 powi (expo x)"
    using assms(2)
    by (simp add: q_def power_int_add [symmetric] flip: power_int_of_nat)
  ultimately show ?thesis by simp
qed

lemma round_fmt_mono_pos:
  assumes "0 < x" "x \<le> y" "1 \<le> p"
  shows "round_fmt p emin x \<le> round_fmt p emin y"
proof (cases "max (expo x) emin = max (expo y) emin")
  case True
  define q :: rat where "q = 2 powi (max (expo y) emin - int p + 1)"
  have q: "0 < q" by (simp add: q_def)
  have "round_even (x / q) \<le> round_even (y / q)"
    using assms(2) q by (intro round_even_mono divide_right_mono) auto
  then have "(of_int (round_even (x / q)) :: rat) \<le> of_int (round_even (y / q))"
    by (simp only: of_int_le_iff)
  then show ?thesis
    using q assms(1,2) True by (simp add: round_fmt_quantum q_def [symmetric])
next
  case False
  with expo_mono [OF assms(1,2)]
  have lt: "max (expo x) emin + 1 \<le> expo y" and ge: "emin \<le> expo y"
    by (auto simp: max_def split: if_splits)
  have "round_fmt p emin x \<le> 2 powi (max (expo x) emin + 1)"
    using assms(1) by (rule round_fmt_upper)
  also have "\<dots> \<le> 2 powi (expo y)"
    using lt by (intro power_int_increasing) auto
  also have "\<dots> \<le> round_fmt p emin y"
    using assms ge by (intro round_fmt_lower) auto
  finally show ?thesis .
qed

text \<open>Rounding is monotone.\<close>

lemma round_fmt_mono:
  assumes "x \<le> y" "1 \<le> p"
  shows "round_fmt p emin x \<le> round_fmt p emin y"
proof -
  consider "0 < x" | "x \<le> 0" "0 \<le> y" | "y < 0" using assms(1) by linarith
  then show ?thesis
  proof cases
    case 1
    then show ?thesis using assms by (rule round_fmt_mono_pos)
  next
    case 2
    show ?thesis
      using round_fmt_nonpos [OF 2(1), of p emin] round_fmt_nonneg [OF 2(2), of p emin] by simp
  next
    case 3
    then have "round_fmt p emin (- y) \<le> round_fmt p emin (- x)"
      using assms by (intro round_fmt_mono_pos) auto
    then show ?thesis by (simp add: round_fmt_minus)
  qed
qed

section \<open>Properties of the operations on finite numbers\<close>

lemma round_fmt_fixed:
  "round_fmt 24 (- 126) 100 = 100" "round_fmt 24 (- 126) 200 = 200"
  "round_fmt 24 (- 126) 300 = 300" "round_fmt 24 (- 126) 1 = 1"
  "round_fmt 24 (- 126) (2 powi 127) = 2 powi 127"
  by code_simp+

lemma round_fmt_bound:
  assumes "\<bar>x\<bar> \<le> K" "round_fmt 24 (- 126) K = K"
  shows "\<bar>round_fmt 24 (- 126) x\<bar> \<le> K"
proof -
  have "round_fmt 24 (- 126) x \<le> round_fmt 24 (- 126) K"
    using assms(1) by (intro round_fmt_mono) auto
  moreover have "round_fmt 24 (- 126) (- K) \<le> round_fmt 24 (- 126) x"
    using assms(1) by (intro round_fmt_mono) auto
  ultimately show ?thesis
    using assms(2) by (simp add: round_fmt_minus abs_le_iff)
qed

lemma to_float_finite:
  assumes "\<bar>x\<bar> \<le> 2 powi 127"
  shows "finite_float (to_float x)" "val (to_float x) = round_fmt 24 (- 126) x"
proof -
  have "\<bar>round_fmt 24 (- 126) x\<bar> \<le> 2 powi 127"
    using assms round_fmt_fixed(5) by (rule round_fmt_bound)
  then have "\<not> (round_fmt 24 (- 126) x \<noteq> 0 \<and> 127 < expo (round_fmt 24 (- 126) x))"
    using expo_le [of "round_fmt 24 (- 126) x" 127] by auto
  then show "finite_float (to_float x)" "val (to_float x) = round_fmt 24 (- 126) x"
    by (auto simp: to_float_def to_format_def Let_def finite_float_def)
qed

lemma finite_float_cases:
  "finite_float a \<longleftrightarrow> a = NegZero \<or> (\<exists>x. a = Fin x)"
  by (cases a) (simp_all add: finite_float_def)

lemma fadd_finite:
  assumes "finite_float a" "finite_float b" "\<bar>val a + val b\<bar> \<le> 2 powi 127"
  shows "finite_float (fadd a b)" "val (fadd a b) = round_fmt 24 (- 126) (val a + val b)"
  using assms to_float_finite [OF assms(3)]
  by (auto simp: fadd_def Let_def finite_float_def is_inf_def signed_zero_def)

lemma fmul_finite:
  assumes "finite_float a" "finite_float b" "\<bar>val a * val b\<bar> \<le> 2 powi 127"
  shows "finite_float (fmul a b)" "val (fmul a b) = round_fmt 24 (- 126) (val a * val b)"
  using assms(1,2) to_float_finite [OF assms(3)]
  by (auto simp: fmul_def Let_def finite_float_def is_inf_def signed_zero_def)

lemma fdiv_finite:
  assumes "finite_float a" "finite_float b" "val b \<noteq> 0" "\<bar>val a / val b\<bar> \<le> 2 powi 127"
  shows "finite_float (fdiv a b)" "val (fdiv a b) = round_fmt 24 (- 126) (val a / val b)"
proof -
  have nz: "\<not> is_zero b" using assms(3) by (auto simp: is_zero_def)
  show "finite_float (fdiv a b)" "val (fdiv a b) = round_fmt 24 (- 126) (val a / val b)"
    using assms(1,2) nz to_float_finite [OF assms(4)]
    by (auto simp: fdiv_def Let_def finite_float_def is_inf_def signed_zero_def)
qed

lemma fge_finite: "finite_float a \<Longrightarrow> fge a (Fin c) \<longleftrightarrow> c \<le> val a"
  by (cases a) (simp_all add: fge_def fle_def finite_float_def)

lemma fle_finite: "finite_float a \<Longrightarrow> fle a (Fin c) \<longleftrightarrow> val a \<le> c"
  by (cases a) (simp_all add: fle_def finite_float_def)

lemma valid_marks_finite:
  "valid_marks m \<longleftrightarrow> finite_float m \<and> 0 \<le> val m \<and> val m \<le> 100"
  by (cases m) (simp_all add: valid_marks_def fge_def fle_def finite_float_def)

section \<open>The derived fields of a student\<close>

lemma round_step:
  assumes "0 \<le> x" "x \<le> K" "round_fmt 24 (- 126) K = K" "K \<le> 2 powi k" "- 126 \<le> k"
  shows "0 \<le> round_fmt 24 (- 126) x" "round_fmt 24 (- 126) x \<le> K"
    "\<bar>round_fmt 24 (- 126) x - x\<bar> \<le> 2 powi (k - 24)"
proof -
  show "0 \<le> round_fmt 24 (- 126) x"
    using assms(1) by (rule round_fmt_nonneg)
  have "round_fmt 24 (- 126) x \<le> round_fmt 24 (- 126) K"
    using assms(2) by (intro round_fmt_mono) auto
  then show "round_fmt 24 (- 126) x \<le> K"
    by (simp add: assms(3))
  have "\<bar>x\<bar> \<le> 2 powi k" using assms(1,2,4) by simp
  from round_fmt_abs_error [OF this assms(5), of 24]
  show "\<bar>round_fmt 24 (- 126) x - x\<bar> \<le> 2 powi (k - 24)" by simp
qed

lemma total_bounds:
  assumes "valid_marks m0" "valid_marks m1" "valid_marks m2"
  defines "t \<equiv> fadd (fadd (fadd (Fin 0) m0) m1) m2"
  shows "finite_float t" "0 \<le> val t" "val t \<le> 300"
    "\<bar>val t - (val m0 + val m1 + val m2)\<bar> \<le> 7 / 131072"
proof -
  define a where "a = fadd (Fin 0) m0"
  define b where "b = fadd a m1"
  have m: "finite_float m0" "0 \<le> val m0" "val m0 \<le> 100"
    "finite_float m1" "0 \<le> val m1" "val m1 \<le> 100"
    "finite_float m2" "0 \<le> val m2" "val m2 \<le> 100"
    using assms(1-3) by (simp_all add: valid_marks_finite)
  have big: "(512::rat) \<le> 2 powi 127" by simp
  have fz: "finite_float (Fin 0)" by (simp add: finite_float_def)
  have "\<bar>val (Fin 0) + val m0\<bar> \<le> 2 powi 127" using m big by simp
  from fadd_finite [OF fz m(1) this]
  have a: "finite_float a" "val a = round_fmt 24 (- 126) (val m0)"
    by (simp_all add: a_def)
  have a_b: "0 \<le> val a" "val a \<le> 100" "\<bar>val a - val m0\<bar> \<le> 2 powi (7 - 24)"
    unfolding a(2)
    using round_step [OF m(2,3) round_fmt_fixed(1), of 7] by simp_all
  have "\<bar>val a + val m1\<bar> \<le> 2 powi 127" using m a_b big by simp
  from fadd_finite [OF a(1) m(4) this]
  have b: "finite_float b" "val b = round_fmt 24 (- 126) (val a + val m1)"
    by (simp_all add: b_def)
  have b_b: "0 \<le> val b" "val b \<le> 200" "\<bar>val b - (val a + val m1)\<bar> \<le> 2 powi (8 - 24)"
    unfolding b(2)
    using round_step [OF _ _ round_fmt_fixed(2), of "val a + val m1" 8] m a_b by simp_all
  have "\<bar>val b + val m2\<bar> \<le> 2 powi 127" using m b_b big by simp
  from fadd_finite [OF b(1) m(7) this]
  have t: "finite_float t" "val t = round_fmt 24 (- 126) (val b + val m2)"
    by (simp_all add: t_def a_def b_def)
  have t_b: "0 \<le> val t" "val t \<le> 300" "\<bar>val t - (val b + val m2)\<bar> \<le> 2 powi (9 - 24)"
    unfolding t(2)
    using round_step [OF _ _ round_fmt_fixed(3), of "val b + val m2" 9] m b_b by simp_all
  show "finite_float t" "0 \<le> val t" "val t \<le> 300"
    using t(1) t_b(1,2) by simp_all
  have "\<bar>val a - val m0\<bar> \<le> 1 / 131072" "\<bar>val b - (val a + val m1)\<bar> \<le> 1 / 65536"
    "\<bar>val t - (val b + val m2)\<bar> \<le> 1 / 32768"
    using a_b(3) b_b(3) t_b(3) by (simp_all add: power_int_minus)
  then show "\<bar>val t - (val m0 + val m1 + val m2)\<bar> \<le> 7 / 131072"
    by linarith
qed

lemma three_hundred: "fmul (Fin 100) (float_of_int (int SUBJECTS)) = Fin 300"
  by code_simp

lemma percentage_bounds:
  assumes "finite_float t" "0 \<le> val t" "val t \<le> 300"
  defines "p \<equiv> fmul (fdiv t (fmul (Fin 100) (float_of_int (int SUBJECTS)))) (Fin 100)"
  shows "finite_float p" "0 \<le> val p" "val p \<le> 100"
    "\<bar>val p - val t / 300 * 100\<bar> \<le> 57 / 4194304"
proof -
  define d where "d = fdiv t (Fin 300)"
  have big: "(512::rat) \<le> 2 powi 127" by simp
  have f: "finite_float (Fin 300)" "finite_float (Fin 100)" by (simp_all add: finite_float_def)
  have q: "0 \<le> val t / 300" "val t / 300 \<le> 1" using assms(2,3) by simp_all
  have "\<bar>val t / val (Fin 300)\<bar> \<le> 2 powi 127" using q big by simp
  from fdiv_finite [OF assms(1) f(1) _ this]
  have d: "finite_float d" "val d = round_fmt 24 (- 126) (val t / 300)"
    by (simp_all add: d_def)
  have d_b: "0 \<le> val d" "val d \<le> 1" "\<bar>val d - val t / 300\<bar> \<le> 2 powi (0 - 24)"
    unfolding d(2)
    using round_step [OF q round_fmt_fixed(4), of 0] by simp_all
  have r: "0 \<le> val d * 100" "val d * 100 \<le> 100" using d_b(1,2) by simp_all
  have "\<bar>val d * val (Fin 100)\<bar> \<le> 2 powi 127" using r big by simp
  from fmul_finite [OF d(1) f(2) this]
  have p: "finite_float p" "val p = round_fmt 24 (- 126) (val d * 100)"
    by (simp_all add: p_def d_def three_hundred)
  have p_b: "0 \<le> val p" "val p \<le> 100" "\<bar>val p - val d * 100\<bar> \<le> 2 powi (7 - 24)"
    unfolding p(2)
    using round_step [OF r round_fmt_fixed(1), of 7] by simp_all
  show "finite_float p" "0 \<le> val p" "val p \<le> 100"
    using p(1) p_b(1,2) by simp_all
  have "\<bar>val d - val t / 300\<bar> \<le> 1 / 16777216" "\<bar>val p - val d * 100\<bar> \<le> 1 / 131072"
    using d_b(3) p_b(3) by (simp_all add: power_int_minus)
  then show "\<bar>val p - val t / 300 * 100\<bar> \<le> 57 / 4194304"
    by linarith
qed

lemma calculate_student_fields:
  assumes "length (marks s) = SUBJECTS"
  shows "total (calculate_student s) =
           fadd (fadd (fadd (Fin 0) (marks s ! 0)) (marks s ! 1)) (marks s ! 2)"
    "percentage (calculate_student s) =
       fmul (fdiv (total (calculate_student s)) (fmul (Fin 100) (float_of_int (int SUBJECTS))))
         (Fin 100)"
    "grade (calculate_student s) =
       (let p = percentage (calculate_student s)
        in if fge p (Fin 90) then ''A+''
           else if fge p (Fin 80) then ''A''
           else if fge p (Fin 70) then ''B''
           else if fge p (Fin 60) then ''C''
           else if fge p (Fin 50) then ''D''
           else ''F'')"
    "roll (calculate_student s) = roll s" "name (calculate_student s) = name s"
    "marks (calculate_student s) = marks s"
proof -
  have "[0..<SUBJECTS] = [0, 1, 2]"
    by (simp add: SUBJECTS_def upt_rec)
  then show "total (calculate_student s) =
           fadd (fadd (fadd (Fin 0) (marks s ! 0)) (marks s ! 1)) (marks s ! 2)"
    by (simp add: calculate_student_def Let_def)
  show "percentage (calculate_student s) =
       fmul (fdiv (total (calculate_student s)) (fmul (Fin 100) (float_of_int (int SUBJECTS))))
         (Fin 100)"
    by (simp add: calculate_student_def Let_def)
  show "grade (calculate_student s) =
       (let p = percentage (calculate_student s)
        in if fge p (Fin 90) then ''A+''
           else if fge p (Fin 80) then ''A''
           else if fge p (Fin 70) then ''B''
           else if fge p (Fin 60) then ''C''
           else if fge p (Fin 50) then ''D''
           else ''F'')"
    by (simp add: calculate_student_def Let_def)
  show "roll (calculate_student s) = roll s" "name (calculate_student s) = name s"
    "marks (calculate_student s) = marks s"
    by (simp_all add: calculate_student_def Let_def)
qed

lemma spec_grade_near:
  assumes "\<bar>p - P\<bar> \<le> e" "\<forall>c \<in> {50, 60, 70, 80, 90}. e < \<bar>P - c\<bar>"
  shows "spec_grade p = spec_grade P"
proof -
  have "c \<le> p \<longleftrightarrow> c \<le> P" if "c \<in> {50, 60, 70, 80, 90}" for c
    using assms(1) assms(2) [rule_format, OF that] by linarith
  then have "90 \<le> p \<longleftrightarrow> 90 \<le> P" "80 \<le> p \<longleftrightarrow> 80 \<le> P" "70 \<le> p \<longleftrightarrow> 70 \<le> P"
    "60 \<le> p \<longleftrightarrow> 60 \<le> P" "50 \<le> p \<longleftrightarrow> 50 \<le> P"
    by simp_all
  then show ?thesis
    by (simp add: spec_grade_def)
qed

text \<open>
  C1, as the code has it. For a student whose three marks each lie in \<open>[0, 100]\<close>,
  \<^verbatim>\<open>calculate_student\<close> leaves the roll, the name and the marks alone; the total and
  the percentage are finite numbers; the total is the sum of the marks up to the three
  roundings of the additions, at most \<open>7 / 131072\<close> away from the exact sum and between 0
  and 300; the percentage is \<open>total / 300 * 100\<close> up to the roundings of the division
  and of the multiplication, at most \<open>57 / 4194304\<close> away from it, at most \<open>1 / 16384\<close>
  away from the exact percentage of the marks, and between 0 and 100; the grade is the grade
  of the threshold table at the computed percentage (at least 90 gives A+, at least 80
  gives A, at least 70 gives B, at least 60 gives C, at least 50 gives D, anything else
  gives F), and it is the grade of the table at the exact percentage of the marks
  whenever that percentage is more than \<open>1 / 16384\<close> away from each of the five
  thresholds.
\<close>

theorem calculate_student_grades:
  assumes "length (marks s) = SUBJECTS" and "\<forall>m \<in> set (marks s). valid_marks m"
  shows "(let s' = calculate_student s; t = val (total s'); p = val (percentage s');
              S = mark_sum s
          in roll s' = roll s \<and> name s' = name s \<and> marks s' = marks s \<and>
             finite_float (total s') \<and> finite_float (percentage s') \<and>
             0 \<le> t \<and> t \<le> 300 \<and> \<bar>t - S\<bar> \<le> 7 / 131072 \<and>
             0 \<le> p \<and> p \<le> 100 \<and> \<bar>p - t / 300 * 100\<bar> \<le> 57 / 4194304 \<and>
             \<bar>p - S / 300 * 100\<bar> \<le> 1 / 16384 \<and>
             grade s' = spec_grade p \<and>
             ((\<forall>c \<in> {50, 60, 70, 80, 90}. 1 / 16384 < \<bar>S / 300 * 100 - c\<bar>) \<longrightarrow>
                grade s' = spec_grade (S / 300 * 100)))"
proof -
  define s' where "s' = calculate_student s"
  define t where "t = val (total s')"
  define p where "p = val (percentage s')"
  define S where "S = mark_sum s"
  have len: "0 < length (marks s)" "1 < length (marks s)" "2 < length (marks s)"
    using assms(1) by (simp_all add: SUBJECTS_def)
  have v: "valid_marks (marks s ! 0)" "valid_marks (marks s ! 1)" "valid_marks (marks s ! 2)"
    using assms(2) len by (simp_all del: One_nat_def)
  note f = calculate_student_fields [OF assms(1), folded s'_def]
  note tb = total_bounds [OF v, folded f(1), folded t_def]
  note pb = percentage_bounds [OF tb(1-3) [unfolded t_def], folded f(2), folded p_def t_def]
  have tS: "\<bar>t - S\<bar> \<le> 7 / 131072"
    using tb(4) by (simp add: S_def mark_sum_def)
  have pS: "\<bar>p - S / 300 * 100\<bar> \<le> 1 / 16384"
    using tS pb(4) by linarith
  have g: "grade s' = spec_grade p"
    unfolding f(3) Let_def spec_grade_def p_def
    by (simp only: fge_finite [OF pb(1)])
  have "grade s' = spec_grade (S / 300 * 100)"
    if "\<forall>c \<in> {50, 60, 70, 80, 90}. 1 / 16384 < \<bar>S / 300 * 100 - c\<bar>"
    unfolding g using pS that by (rule spec_grade_near)
  then show ?thesis
    unfolding Let_def s'_def [symmetric] t_def [symmetric] p_def [symmetric] S_def [symmetric]
    using f(4-6) tb(1-3) pb(1-3) tS pb(4) pS g by (intro conjI impI) simp_all
qed

theorem calculate_student_grades_witness:
  "(let s = new_student 1 ''a'' [Fin 90, Fin 90, Fin 90]; s' = calculate_student s
    in length (marks s) = SUBJECTS \<and> list_all valid_marks (marks s) \<and>
       total s' = Fin 270 \<and> percentage s' = Fin 90 \<and> grade s' = ''A+'') \<and>
   (let m = to_float (8999 / 100); s = new_student 2 ''b'' [m, m, m]; s' = calculate_student s
    in length (marks s) = SUBJECTS \<and> list_all valid_marks (marks s) \<and>
       m = Fin (11795169 / 131072) \<and> total s' = Fin (8846377 / 32768) \<and>
       percentage s' = Fin (5897585 / 65536) \<and> grade s' = ''A'') \<and>
   (let s = new_student 3 ''c'' [Fin 0, Fin 50, Fin 100]; s' = calculate_student s
    in length (marks s) = SUBJECTS \<and> list_all valid_marks (marks s) \<and>
       total s' = Fin 150 \<and> percentage s' = Fin 50 \<and> grade s' = ''D'') \<and>
   (let m = to_float (4999 / 100); s = new_student 4 ''d'' [m, m, m]; s' = calculate_student s
    in length (marks s) = SUBJECTS \<and> list_all valid_marks (marks s) \<and>
       m = Fin (13104579 / 262144) \<and> total s' = Fin (4914217 / 32768) \<and>
       percentage s' = to_float (4999 / 100) \<and> grade s' = ''F'')"
proof -
  define s1 where "s1 = new_student 1 ''a'' [Fin 90, Fin 90, Fin 90]"
  define s2 where "s2 = new_student 2 ''b'' [to_float (8999 / 100), to_float (8999 / 100), to_float (8999 / 100)]"
  define s3 where "s3 = new_student 3 ''c'' [Fin 0, Fin 50, Fin 100]"
  define s4 where "s4 = new_student 4 ''d'' [to_float (4999 / 100), to_float (4999 / 100), to_float (4999 / 100)]"
  have m: "to_float (8999 / 100) = Fin (11795169 / 131072)"
    "to_float (4999 / 100) = Fin (13104579 / 262144)"
    by code_simp+
  have h1: "length (marks s1) = SUBJECTS" "\<forall>m \<in> set (marks s1). valid_marks m"
    unfolding s1_def by code_simp+
  have h2: "length (marks s2) = SUBJECTS" "\<forall>m \<in> set (marks s2). valid_marks m"
    unfolding s2_def by code_simp+
  have h3: "length (marks s3) = SUBJECTS" "\<forall>m \<in> set (marks s3). valid_marks m"
    unfolding s3_def by code_simp+
  have h4: "length (marks s4) = SUBJECTS" "\<forall>m \<in> set (marks s4). valid_marks m"
    unfolding s4_def by code_simp+
  have p1: "total (calculate_student s1) = Fin 270" "percentage (calculate_student s1) = Fin 90"
    unfolding s1_def by code_simp+
  have p2: "total (calculate_student s2) = Fin (8846377 / 32768)"
    "percentage (calculate_student s2) = Fin (5897585 / 65536)"
    unfolding s2_def by code_simp+
  have p3: "total (calculate_student s3) = Fin 150" "percentage (calculate_student s3) = Fin 50"
    unfolding s3_def by code_simp+
  have p4: "total (calculate_student s4) = Fin (4914217 / 32768)"
    "percentage (calculate_student s4) = Fin (13104579 / 262144)"
    unfolding s4_def by code_simp+
  have g1: "grade (calculate_student s1) = ''A+''"
    using calculate_student_grades [OF h1] by (simp add: Let_def p1 spec_grade_def)
  have g2: "grade (calculate_student s2) = ''A''"
    using calculate_student_grades [OF h2] by (simp add: Let_def p2 spec_grade_def)
  have g3: "grade (calculate_student s3) = ''D''"
    using calculate_student_grades [OF h3] by (simp add: Let_def p3 spec_grade_def)
  have g4: "grade (calculate_student s4) = ''F''"
    using calculate_student_grades [OF h4] by (simp add: Let_def p4 spec_grade_def)
  show ?thesis
    unfolding Let_def s1_def [symmetric] s2_def [symmetric] s3_def [symmetric] s4_def [symmetric]
    using h1 h2 h3 h4 p1 p2 p3 p4 g1 g2 g3 g4 m by (simp add: list_all_iff)
qed

text \<open>
  C1, as the specification has it, fails: the total is not the sum of the marks, and the
  grade is not the grade of the percentage of the marks. The marks 50, 50 and
  \<open>50 - 1 / 262144\<close> are numbers of type \<^verbatim>\<open>float\<close> in \<open>[0, 100]\<close>; their sum is
  less than 150, so the percentage of the marks is less than 50, which the table grades F;
  the second addition rounds, the total is 150, the percentage 50 and the grade D. With
  the marks \<^verbatim>\<open>28.07f\<close>, \<^verbatim>\<open>99.95f\<close> and \<^verbatim>\<open>21.98f\<close> the total is not even the
  sum rounded once to \<^verbatim>\<open>float\<close>: that is 150, whose percentage is graded D, and the
  total is \<open>150 - 1 / 65536\<close>, graded F.
\<close>

theorem calculate_student_inexact:
  "(let s = new_student 1 ''a'' [Fin 50, Fin 50, Fin (13107199 / 262144)];
        s' = calculate_student s
    in list_all valid_marks (marks s) \<and> to_float (13107199 / 262144) = Fin (13107199 / 262144) \<and>
       mark_sum s = 39321599 / 262144 \<and> spec_grade (mark_sum s / 300 * 100) = ''F'' \<and>
       total s' = Fin 150 \<and> percentage s' = Fin 50 \<and> grade s' = ''D'') \<and>
   (let s = new_student 2 ''b'' [to_float (2807 / 100), to_float (9995 / 100), to_float (2198 / 100)];
        s' = calculate_student s
    in list_all valid_marks (marks s) \<and>
       mark_sum s = 39321599 / 262144 \<and> to_float (mark_sum s) = Fin 150 \<and>
       fmul (fdiv (Fin 150) (Fin 300)) (Fin 100) = Fin 50 \<and>
       total s' = Fin (9830399 / 65536) \<and> percentage s' = Fin (6553599 / 131072) \<and>
       grade s' = ''F'')"
  by code_simp

end
